theory Spec2Isabelle
  imports Main "HOL-Library.Word" "HOL-Library.Sublist" "HOL-Library.AList" "HOL-Library.Multiset"
begin

unbundle bit_operations_syntax

section \<open>Data\<close>

text \<open>
  A \<open>Uint8Array\<close> is a list of bytes. A JavaScript string is a list of UTF-16 code
  units. Identifiers and ASCII literals of the source are written as HOL strings and
  injected with \<open>js\<close>.
\<close>

type_synonym byte = "8 word"
type_synonym bytes = "byte list"
type_synonym jschar = "16 word"
type_synonym jsstring = "jschar list"

definition js :: "string \<Rightarrow> jsstring" where
  "js s = map (\<lambda>c. of_nat (of_char c)) s"

text \<open>
  The exceptions of the platform functions the source calls (each is a \<open>DOMException\<close>
  name, a \<open>TypeError\<close> or a \<open>RangeError\<close>). The source defines no exception class
  of its own.
\<close>

datatype error =
    InvalidCharacterError
  | OperationError
  | InvalidAccessError
  | DataError
  | TypeError
  | RangeError

section \<open>Platform functions: text encoding\<close>

text \<open>
  \<open>TextEncoder.encode\<close> and \<open>TextDecoder.decode\<close> are platform functions, written
  here after the WHATWG Encoding Standard. Code points are natural numbers.
\<close>

definition is_surrogate :: "jschar \<Rightarrow> bool" where
  "is_surrogate u = (0xD800 \<le> unat u \<and> unat u \<le> 0xDFFF)"

definition is_lead :: "jschar \<Rightarrow> bool" where
  "is_lead u = (0xD800 \<le> unat u \<and> unat u \<le> 0xDBFF)"

definition is_trail :: "jschar \<Rightarrow> bool" where
  "is_trail u = (0xDC00 \<le> unat u \<and> unat u \<le> 0xDFFF)"

text \<open>
  Conversion of a string to scalar values (a \<open>USVString\<close>): a surrogate pair is one
  code point, a surrogate that is not part of a pair becomes U+FFFD.
\<close>

fun to_scalars :: "jsstring \<Rightarrow> nat list" where
  "to_scalars [] = []"
| "to_scalars [u] = (if is_surrogate u then [0xFFFD] else [unat u])"
| "to_scalars (u # v # rest) =
     (if is_lead u \<and> is_trail v
      then (0x10000 + (unat u - 0xD800) * 0x400 + (unat v - 0xDC00)) # to_scalars rest
      else (if is_surrogate u then 0xFFFD else unat u) # to_scalars (v # rest))"

definition utf8_encode_cp :: "nat \<Rightarrow> bytes" where
  "utf8_encode_cp c =
     (if c < 0x80 then [of_nat c]
      else if c < 0x800 then [of_nat (0xC0 + c div 64), of_nat (0x80 + c mod 64)]
      else if c < 0x10000 then
        [of_nat (0xE0 + c div 4096), of_nat (0x80 + c div 64 mod 64), of_nat (0x80 + c mod 64)]
      else
        [of_nat (0xF0 + c div 262144), of_nat (0x80 + c div 4096 mod 64),
         of_nat (0x80 + c div 64 mod 64), of_nat (0x80 + c mod 64)])"

definition TextEncoder_encode :: "jsstring \<Rightarrow> bytes" where
  "TextEncoder_encode s = concat (map utf8_encode_cp (to_scalars s))"

text \<open>
  The UTF-8 decoder of the standard, without the fatal flag: its state is the code point
  under construction, the bytes seen and needed, and the bounds of the next continuation
  byte. A byte that cannot continue a sequence emits U+FFFD and is read again in the
  initial state. \<open>x mod 32\<close> is \<open>byte & 0x1F\<close>, and \<open>cp * 64 + x mod 64\<close> is
  \<open>(cp << 6) | (byte & 0x3F)\<close>.
\<close>

function utf8_decode_loop :: "nat \<Rightarrow> nat \<Rightarrow> nat \<Rightarrow> nat \<Rightarrow> nat \<Rightarrow> bytes \<Rightarrow> nat list" where
  "utf8_decode_loop cp seen needed lo hi [] = (if needed \<noteq> 0 then [0xFFFD] else [])"
| "utf8_decode_loop cp seen needed lo hi (b # bs) =
     (let x = unat b in
      if needed = 0 then
        if x \<le> 0x7F then x # utf8_decode_loop cp seen needed lo hi bs
        else if 0xC2 \<le> x \<and> x \<le> 0xDF then utf8_decode_loop (x mod 32) seen 1 lo hi bs
        else if 0xE0 \<le> x \<and> x \<le> 0xEF then
          utf8_decode_loop (x mod 16) seen 2
            (if x = 0xE0 then 0xA0 else lo) (if x = 0xED then 0x9F else hi) bs
        else if 0xF0 \<le> x \<and> x \<le> 0xF4 then
          utf8_decode_loop (x mod 8) seen 3
            (if x = 0xF0 then 0x90 else lo) (if x = 0xF4 then 0x8F else hi) bs
        else 0xFFFD # utf8_decode_loop cp seen needed lo hi bs
      else if \<not> (lo \<le> x \<and> x \<le> hi) then
        0xFFFD # utf8_decode_loop 0 0 0 0x80 0xBF (b # bs)
      else
        (let cp' = cp * 64 + x mod 64; seen' = seen + 1 in
         if seen' \<noteq> needed then utf8_decode_loop cp' seen' needed 0x80 0xBF bs
         else cp' # utf8_decode_loop 0 0 0 0x80 0xBF bs))"
  by pat_completeness auto
termination
  by (relation "measure (\<lambda>(cp, seen, needed, lo, hi, bs).
        2 * length bs + (if needed = 0 then 0 else 1))") auto

definition utf8_decode :: "bytes \<Rightarrow> nat list" where
  "utf8_decode bs = utf8_decode_loop 0 0 0 0x80 0xBF bs"

text \<open>A code point as UTF-16 code units.\<close>

definition from_scalar :: "nat \<Rightarrow> jsstring" where
  "from_scalar c =
     (if c < 0x10000 then [of_nat c]
      else [of_nat (0xD800 + (c - 0x10000) div 0x400), of_nat (0xDC00 + (c - 0x10000) mod 0x400)])"

text \<open>
  \<open>new TextDecoder().decode\<close>: the \<open>ignoreBOM\<close> flag is false by default, so a first
  code point U+FEFF is not part of the output.
\<close>

definition strip_bom :: "nat list \<Rightarrow> nat list" where
  "strip_bom cps = (case cps of [] \<Rightarrow> [] | c # rest \<Rightarrow> if c = 0xFEFF then rest else cps)"

definition TextDecoder_decode :: "bytes \<Rightarrow> jsstring" where
  "TextDecoder_decode bs = concat (map from_scalar (strip_bom (utf8_decode bs)))"

declare utf8_decode_loop.simps [simp del]

text \<open>
  A scalar value is a code point that is not a surrogate. A string is well formed
  (\<open>String.prototype.isWellFormed\<close>) when every surrogate in it is part of a pair.
\<close>

definition is_scalar :: "nat \<Rightarrow> bool" where
  "is_scalar c = (c < 0x110000 \<and> \<not> (0xD800 \<le> c \<and> c \<le> 0xDFFF))"

fun isWellFormed :: "jsstring \<Rightarrow> bool" where
  "isWellFormed [] = True"
| "isWellFormed [u] = (\<not> is_surrogate u)"
| "isWellFormed (u # v # rest) =
     (if is_lead u \<and> is_trail v then isWellFormed rest
      else \<not> is_surrogate u \<and> isWellFormed (v # rest))"



section \<open>Platform functions: base64\<close>

text \<open>
  \<open>btoa\<close> and \<open>atob\<close> are platform functions, written here after the HTML Standard
  and the forgiving-base64 encode and decode of the Infra Standard.
\<close>

definition b64_char :: "nat \<Rightarrow> jschar" where
  "b64_char n =
     (if n < 26 then of_nat (65 + n)
      else if n < 52 then of_nat (97 + (n - 26))
      else if n < 62 then of_nat (48 + (n - 52))
      else if n = 62 then 43 else 47)"

definition b64_val :: "jschar \<Rightarrow> nat option" where
  "b64_val u =
     (let x = unat u in
      if 65 \<le> x \<and> x \<le> 90 then Some (x - 65)
      else if 97 \<le> x \<and> x \<le> 122 then Some (x - 97 + 26)
      else if 48 \<le> x \<and> x \<le> 57 then Some (x - 48 + 52)
      else if x = 43 then Some 62
      else if x = 47 then Some 63
      else None)"

text \<open>Three bytes give four characters; a last group of one or two bytes is padded with \<open>=\<close>.\<close>

fun b64_encode :: "nat list \<Rightarrow> jsstring" where
  "b64_encode [] = []"
| "b64_encode [a] = [b64_char (a div 4), b64_char (a mod 4 * 16), 61, 61]"
| "b64_encode [a, b] =
     [b64_char (a div 4), b64_char (a mod 4 * 16 + b div 16), b64_char (b mod 16 * 4), 61]"
| "b64_encode (a # b # c # rest) =
     [b64_char (a div 4), b64_char (a mod 4 * 16 + b div 16),
      b64_char (b mod 16 * 4 + c div 64), b64_char (c mod 64)] @ b64_encode rest"

text \<open>The six-bit values of \<open>b64_encode\<close>, without the padding.\<close>

fun b64_sextets :: "nat list \<Rightarrow> nat list" where
  "b64_sextets [] = []"
| "b64_sextets [a] = [a div 4, a mod 4 * 16]"
| "b64_sextets [a, b] = [a div 4, a mod 4 * 16 + b div 16, b mod 16 * 4]"
| "b64_sextets (a # b # c # rest) =
     [a div 4, a mod 4 * 16 + b div 16, b mod 16 * 4 + c div 64, c mod 64] @ b64_sextets rest"

text \<open>\<open>btoa\<close> throws when a code unit of its argument is above U+00FF.\<close>

definition btoa :: "jsstring \<Rightarrow> error + jsstring" where
  "btoa s =
     (if list_ex (\<lambda>u. unat u > 0xFF) s then Inl InvalidCharacterError
      else Inr (b64_encode (map unat s)))"

definition is_ascii_whitespace :: "jschar \<Rightarrow> bool" where
  "is_ascii_whitespace u = (u = 9 \<or> u = 10 \<or> u = 12 \<or> u = 13 \<or> u = 32)"

text \<open>One or two \<open>=\<close> at the end are removed (only when the length is a multiple of 4).\<close>

definition strip_padding :: "jsstring \<Rightarrow> jsstring" where
  "strip_padding d =
     (case rev d of
        x # y # r \<Rightarrow> if x = 61 \<and> y = 61 then rev r else if x = 61 then rev (y # r) else d
      | [x] \<Rightarrow> if x = 61 then [] else d
      | [] \<Rightarrow> d)"

fun b64_vals :: "jsstring \<Rightarrow> nat list option" where
  "b64_vals [] = Some []"
| "b64_vals (u # us) =
     (case b64_val u of
        None \<Rightarrow> None
      | Some v \<Rightarrow> (case b64_vals us of None \<Rightarrow> None | Some vs \<Rightarrow> Some (v # vs)))"

text \<open>
  Four values give three bytes. At the end, twelve bits left give one byte and eighteen
  give two; the last four or two bits are discarded, whatever they are.
\<close>

fun b64_decode :: "nat list \<Rightarrow> nat list" where
  "b64_decode (v1 # v2 # v3 # v4 # rest) =
     [v1 * 4 + v2 div 16, v2 mod 16 * 16 + v3 div 4, v3 mod 4 * 64 + v4] @ b64_decode rest"
| "b64_decode [v1, v2, v3] = [v1 * 4 + v2 div 16, v2 mod 16 * 16 + v3 div 4]"
| "b64_decode [v1, v2] = [v1 * 4 + v2 div 16]"
| "b64_decode [v1] = []"
| "b64_decode [] = []"

text \<open>\<open>atob\<close> returns a string with one code unit per byte.\<close>

definition atob :: "jsstring \<Rightarrow> error + jsstring" where
  "atob data =
     (let d1 = filter (\<lambda>u. \<not> is_ascii_whitespace u) data;
          d2 = (if length d1 mod 4 = 0 then strip_padding d1 else d1)
      in if length d2 mod 4 = 1 then Inl InvalidCharacterError
         else (case b64_vals d2 of
                 None \<Rightarrow> Inl InvalidCharacterError
               | Some vs \<Rightarrow> Inr (map of_nat (b64_decode vs))))"

section \<open>Platform functions: Web Crypto and randomness\<close>

text \<open>
  A \<open>CryptoKey\<close>: its raw key material and its \<open>extractable\<close> flag. The material of
  a key is never visible to the program unless \<open>exportKey\<close> yields it.
\<close>

record crypto_key =
  key_raw :: bytes
  extractable :: bool

text \<open>\<open>crypto.subtle.exportKey('raw', key)\<close> rejects for a non-extractable key.\<close>

definition exportKey :: "crypto_key \<Rightarrow> error + bytes" where
  "exportKey k = (if extractable k then Inr (key_raw k) else Inl InvalidAccessError)"

text \<open>
  \<open>crypto.subtle.importKey('raw', data, {name: 'AES-GCM'}, false, ...)\<close>: an AES key has
  128, 192 or 256 bits; the imported key is not extractable.
\<close>

definition importKey_aes :: "bytes \<Rightarrow> error + crypto_key" where
  "importKey_aes raw =
     (if length raw \<in> {16, 24, 32}
      then Inr \<lparr>key_raw = raw, extractable = False\<rparr>
      else Inl DataError)"

text \<open>
  AES-GCM is a parameter of the model: \<open>seal\<close> maps key material, nonce and plaintext
  to ciphertext and tag, \<open>unseal\<close> maps key material, nonce and ciphertext with tag to
  the plaintext, or to nothing when the tag does not validate.
\<close>

record aes_gcm =
  seal :: "bytes \<Rightarrow> bytes \<Rightarrow> bytes \<Rightarrow> bytes"
  unseal :: "bytes \<Rightarrow> bytes \<Rightarrow> bytes \<Rightarrow> bytes option"

definition subtle_encrypt :: "aes_gcm \<Rightarrow> bytes \<Rightarrow> crypto_key \<Rightarrow> bytes \<Rightarrow> error + bytes" where
  "subtle_encrypt gcm iv key data = Inr (seal gcm (key_raw key) iv data)"

definition subtle_decrypt :: "aes_gcm \<Rightarrow> bytes \<Rightarrow> crypto_key \<Rightarrow> bytes \<Rightarrow> error + bytes" where
  "subtle_decrypt gcm iv key data =
     (case unseal gcm (key_raw key) iv data of
        None \<Rightarrow> Inl OperationError
      | Some plaintext \<Rightarrow> Inr plaintext)"

text \<open>
  The random source is a stream of bytes; \<open>crypto.getRandomValues(new Uint8Array(n))\<close>
  takes the next \<open>n\<close> of them.
\<close>

type_synonym rng = "nat \<Rightarrow> byte"

definition getRandomValues :: "nat \<Rightarrow> rng \<Rightarrow> bytes \<times> rng" where
  "getRandomValues n r = (map r [0..<n], \<lambda>i. r (i + n))"

text \<open>
  PBKDF2 with HMAC-SHA-256 is a parameter \<open>kdf\<close> of the model: password bytes, salt
  bytes and iteration count to 256 bits. \<open>deriveBits\<close> rejects an iteration count of
  zero, and one that is not an \<open>unsigned long\<close>.
\<close>

type_synonym pbkdf2 = "bytes \<Rightarrow> bytes \<Rightarrow> nat \<Rightarrow> bytes"

definition deriveBits :: "pbkdf2 \<Rightarrow> bytes \<Rightarrow> bytes \<Rightarrow> nat \<Rightarrow> error + bytes" where
  "deriveBits kdf password salt iterations =
     (if iterations > 4294967295 then Inl TypeError
      else if iterations = 0 then Inl OperationError
      else Inr (kdf password salt iterations))"

section \<open>Worker: crypto.ts\<close>

text \<open>\<open>String.fromCharCode(bytes[i])\<close> of a byte, and \<open>bytes[i] = binary.charCodeAt(i)\<close>.\<close>

definition toBase64 :: "bytes \<Rightarrow> error + jsstring" where
  "toBase64 bs = btoa (map ucast bs)"

definition fromBase64 :: "jsstring \<Rightarrow> error + bytes" where
  "fromBase64 v = (case atob v of Inl e \<Rightarrow> Inl e | Inr binary \<Rightarrow> Inr (map ucast binary))"

text \<open>\<open>encrypt\<close> returns the wire string and the random source it leaves.\<close>

definition AES_GCM_NONCE_BYTES :: nat where
  "AES_GCM_NONCE_BYTES = 12"

definition SALT_BYTES :: nat where
  "SALT_BYTES = 16"

definition PBKDF2_ITERATIONS_DEFAULT :: nat where
  "PBKDF2_ITERATIONS_DEFAULT = 100"

definition encrypt :: "aes_gcm \<Rightarrow> crypto_key \<Rightarrow> jsstring \<Rightarrow> rng \<Rightarrow> (error + jsstring) \<times> rng" where
  "encrypt gcm key plaintext r =
     (let (nonce, r') = getRandomValues AES_GCM_NONCE_BYTES r in
      case subtle_encrypt gcm nonce key (TextEncoder_encode plaintext) of
        Inl e \<Rightarrow> (Inl e, r')
      | Inr ciphertext \<Rightarrow> (toBase64 (nonce @ ciphertext), r'))"

definition decrypt :: "aes_gcm \<Rightarrow> crypto_key \<Rightarrow> jsstring \<Rightarrow> error + jsstring" where
  "decrypt gcm key encryptedData =
     (case fromBase64 encryptedData of
        Inl e \<Rightarrow> Inl e
      | Inr combined \<Rightarrow>
          (let nonce = take AES_GCM_NONCE_BYTES combined;
               ciphertext = drop AES_GCM_NONCE_BYTES combined
           in case subtle_decrypt gcm nonce key ciphertext of
                Inl e \<Rightarrow> Inl e
              | Inr plaintext \<Rightarrow> Inr (TextDecoder_decode plaintext)))"

text \<open>
  The decimal digits of a number, as a template literal prints a non-negative integer.
\<close>

fun decimal :: "nat \<Rightarrow> jsstring" where
  "decimal n = (if n < 10 then [of_nat (48 + n)] else decimal (n div 10) @ [of_nat (48 + n mod 10)])"

declare decimal.simps [simp del]

definition hashPassword :: "pbkdf2 \<Rightarrow> jsstring \<Rightarrow> rng \<Rightarrow> (error + jsstring) \<times> rng" where
  "hashPassword kdf password r =
     (let (salt, r') = getRandomValues SALT_BYTES r;
          passwordBytes = TextEncoder_encode password in
      case deriveBits kdf passwordBytes salt PBKDF2_ITERATIONS_DEFAULT of
        Inl e \<Rightarrow> (Inl e, r')
      | Inr hashBytes \<Rightarrow>
          (case toBase64 salt of
             Inl e \<Rightarrow> (Inl e, r')
           | Inr saltB64 \<Rightarrow>
               (case toBase64 hashBytes of
                  Inl e \<Rightarrow> (Inl e, r')
                | Inr hashB64 \<Rightarrow>
                    (Inr (js ''$pbkdf2$'' @ decimal PBKDF2_ITERATIONS_DEFAULT @ js ''$''
                          @ saltB64 @ js ''$'' @ hashB64), r'))))"

text \<open>
  \<open>mismatch |= a[i] ^ b[i]\<close> over all indices; \<open>mismatch\<close> is a 32-bit integer.
\<close>

definition timingSafeEqual :: "bytes \<Rightarrow> bytes \<Rightarrow> bool" where
  "timingSafeEqual a b =
     (if length a \<noteq> length b then False
      else foldl (\<lambda>mismatch (x, y). mismatch OR (ucast x XOR ucast y)) (0 :: 32 word) (zip a b) = 0)"

definition is_digit :: "jschar \<Rightarrow> bool" where
  "is_digit u = (48 \<le> unat u \<and> unat u \<le> 57)"

text \<open>
  The match of \<open>/^\$pbkdf2\$(\d+)\$([^$]+)\$([^$]+)$/\<close>: its three groups, or nothing.
  Every group ends at a \<open>$\<close> or at the end of the string, so there is one way to match.
\<close>

definition strip_prefix :: "jsstring \<Rightarrow> jsstring \<Rightarrow> jsstring option" where
  "strip_prefix p s = (if prefix p s then Some (drop (length p) s) else None)"

definition pbkdf2_match :: "jsstring \<Rightarrow> (jsstring \<times> jsstring \<times> jsstring) option" where
  "pbkdf2_match s =
     (case strip_prefix (js ''$pbkdf2$'') s of
        None \<Rightarrow> None
      | Some r1 \<Rightarrow>
          (let iterationsStr = takeWhile is_digit r1; r2 = dropWhile is_digit r1 in
           if iterationsStr = [] then None
           else (case strip_prefix (js ''$'') r2 of
                   None \<Rightarrow> None
                 | Some r3 \<Rightarrow>
                     (let saltB64 = takeWhile (\<lambda>u. u \<noteq> 36) r3; r4 = dropWhile (\<lambda>u. u \<noteq> 36) r3 in
                      if saltB64 = [] then None
                      else (case strip_prefix (js ''$'') r4 of
                              None \<Rightarrow> None
                            | Some hashB64 \<Rightarrow>
                                if hashB64 = [] \<or> list_ex (\<lambda>u. u = 36) hashB64 then None
                                else Some (iterationsStr, saltB64, hashB64))))))"

text \<open>
  \<open>Number(s)\<close> for a string of decimal digits, which is what the first group of the
  match is; \<open>None\<close> stands for NaN.
\<close>

definition Number_of :: "jsstring \<Rightarrow> nat option" where
  "Number_of s =
     (if s \<noteq> [] \<and> list_all is_digit s
      then Some (foldl (\<lambda>n u. 10 * n + (unat u - 48)) 0 s)
      else None)"

definition verifyPassword :: "pbkdf2 \<Rightarrow> jsstring \<Rightarrow> jsstring \<Rightarrow> error + bool" where
  "verifyPassword kdf password storedHash =
     (if \<not> prefix (js ''$pbkdf2$'') storedHash then Inr False
      else (case pbkdf2_match storedHash of
              None \<Rightarrow> Inr False
            | Some (iterationsStr, saltB64, hashB64) \<Rightarrow>
                (case Number_of iterationsStr of
                   None \<Rightarrow> Inr False
                 | Some iterations \<Rightarrow>
                     (case fromBase64 saltB64 of
                        Inl e \<Rightarrow> Inl e
                      | Inr salt \<Rightarrow>
                          (case fromBase64 hashB64 of
                             Inl e \<Rightarrow> Inl e
                           | Inr expectedHash \<Rightarrow>
                               (case deriveBits kdf (TextEncoder_encode password) salt iterations of
                                  Inl e \<Rightarrow> Inl e
                                | Inr calculated \<Rightarrow>
                                    Inr (timingSafeEqual calculated expectedHash)))))))"

section \<open>Client: lib/crypto.ts\<close>

definition NONCE_BYTES :: nat where
  "NONCE_BYTES = 12"

text \<open>
  \<open>String.fromCharCode(...combined)\<close> passes one argument for each byte of
  \<open>combined\<close>. An engine accepts a bounded number of arguments in one call and throws a
  \<open>RangeError\<close> beyond it. The bound differs between engines, such as the 65536 of
  JavaScriptCore, and is the parameter \<open>max_args\<close> of the model. The worker's
  \<open>toBase64\<close> appends the characters in a loop and has no such bound.
\<close>

definition String_fromCharCode_spread :: "nat \<Rightarrow> bytes \<Rightarrow> error + jsstring" where
  "String_fromCharCode_spread max_args combined =
     (if length combined > max_args then Inl RangeError else Inr (map ucast combined))"

text \<open>
  \<open>encryptData\<close> takes its nonce before it encrypts, and returns
  \<open>btoa(String.fromCharCode(...combined))\<close>; \<open>decryptData\<close> starts from
  \<open>Uint8Array.from(atob(encryptedData), c => c.charCodeAt(0))\<close>.
\<close>

definition encryptData ::
  "aes_gcm \<Rightarrow> nat \<Rightarrow> jsstring \<Rightarrow> crypto_key \<Rightarrow> rng \<Rightarrow> (error + jsstring) \<times> rng" where
  "encryptData gcm max_args data key r =
     (let dataBuffer = TextEncoder_encode data;
          (nonce, r') = getRandomValues NONCE_BYTES r in
      case subtle_encrypt gcm nonce key dataBuffer of
        Inl e \<Rightarrow> (Inl e, r')
      | Inr ciphertext \<Rightarrow>
          (case String_fromCharCode_spread max_args (nonce @ ciphertext) of
             Inl e \<Rightarrow> (Inl e, r')
           | Inr binary \<Rightarrow> (btoa binary, r')))"

definition decryptData :: "aes_gcm \<Rightarrow> jsstring \<Rightarrow> crypto_key \<Rightarrow> error + jsstring" where
  "decryptData gcm encryptedData key =
     (case atob encryptedData of
        Inl e \<Rightarrow> Inl e
      | Inr binary \<Rightarrow>
          (let combined = map ucast binary;
               nonce = take NONCE_BYTES combined;
               ciphertext = drop NONCE_BYTES combined
           in case subtle_decrypt gcm nonce key ciphertext of
                Inl e \<Rightarrow> Inl e
              | Inr decrypted \<Rightarrow> Inr (TextDecoder_decode decrypted)))"


subsection \<open>\<open>encryptObject\<close> and \<open>decryptObject\<close>\<close>

text \<open>
  An object is the list of its own properties, as \<open>Object.entries\<close> returns it; its
  keys are distinct. The values are strings, numbers, \<open>null\<close> and \<open>undefined\<close>.
\<close>

datatype jsvalue = Undefined | Null | Str jsstring | Num int

type_synonym object = "(jsstring \<times> jsvalue) list"


text \<open>
  The own properties of an ordinary object are listed with the array indices first, in
  ascending order, and then the other names in the order of their creation. An array
  index is the decimal numeral of a number below \<open>2^32 - 1\<close>. \<open>create_property\<close> puts
  a new property at its place in that list, and \<open>set_property\<close> is the assignment to
  a data property: it replaces the value of a property that is there and creates the
  property otherwise.
\<close>

definition array_index :: "jsstring \<Rightarrow> nat option" where
  "array_index k =
     (case Number_of k of
        None \<Rightarrow> None
      | Some n \<Rightarrow> if n < 4294967295 \<and> decimal n = k then Some n else None)"

fun create_property :: "jsstring \<Rightarrow> jsvalue \<Rightarrow> object \<Rightarrow> object" where
  "create_property k v [] = [(k, v)]"
| "create_property k v ((k', v') # rest) =
     (case array_index k of
        None \<Rightarrow> (k', v') # create_property k v rest
      | Some i \<Rightarrow>
          (case array_index k' of
             None \<Rightarrow> (k, v) # (k', v') # rest
           | Some i' \<Rightarrow>
               if i < i' then (k, v) # (k', v') # rest
               else (k', v') # create_property k v rest))"

definition set_property :: "jsstring \<Rightarrow> jsvalue \<Rightarrow> object \<Rightarrow> object" where
  "set_property k v props =
     (if k \<in> fst ` set props then AList.update k v props else create_property k v props)"



text \<open>\<open>s.replace(p, '')\<close> with a string pattern removes the first occurrence of \<open>p\<close>.\<close>

fun remove_first :: "jsstring \<Rightarrow> jsstring \<Rightarrow> jsstring" where
  "remove_first p [] = []"
| "remove_first p (c # cs) =
     (if prefix p (c # cs) then drop (length p) (c # cs) else c # remove_first p cs)"

definition originalKey :: "jsstring \<Rightarrow> jsstring" where
  "originalKey fieldKey = remove_first (js ''_encrypted'') fieldKey"

definition endsWith_encrypted :: "jsstring \<Rightarrow> bool" where
  "endsWith_encrypted fieldKey = suffix (js ''_encrypted'') fieldKey"

definition passthrough_keys :: "jsstring list" where
  "passthrough_keys = [js ''id'', js ''user_id'', js ''date_modified'']"

text \<open>
  Every callback of \<open>Object.entries(encryptedObj).map(async ...)\<close> runs at once up to
  its first \<open>await\<close>. The callbacks that reach no \<open>await\<close> write their entry during the
  \<open>map\<close>, in the order of the entries: \<open>immediate_writes\<close>. The others wait for
  \<open>decryptData\<close>: \<open>pending\<close>, bare name and wire string.
\<close>

fun immediate_writes :: "object \<Rightarrow> object" where
  "immediate_writes [] = []"
| "immediate_writes ((fieldKey, v) # rest) =
     (if endsWith_encrypted fieldKey then
        (case v of
           Str w \<Rightarrow> if length w > 0 then immediate_writes rest
                    else (originalKey fieldKey, Null) # immediate_writes rest
         | _ \<Rightarrow> (originalKey fieldKey, Null) # immediate_writes rest)
      else if fieldKey \<in> set passthrough_keys then (fieldKey, v) # immediate_writes rest
      else immediate_writes rest)"

fun pending :: "object \<Rightarrow> (jsstring \<times> jsstring) list" where
  "pending [] = []"
| "pending ((fieldKey, v) # rest) =
     (if endsWith_encrypted fieldKey then
        (case v of
           Str w \<Rightarrow> if length w > 0 then (originalKey fieldKey, w) # pending rest
                    else pending rest
         | _ \<Rightarrow> pending rest)
      else pending rest)"

text \<open>What a callback writes once its \<open>decryptData\<close> has settled.\<close>

definition settle :: "aes_gcm \<Rightarrow> crypto_key \<Rightarrow> jsstring \<times> jsstring \<Rightarrow> jsstring \<times> jsvalue" where
  "settle gcm key p =
     (case decryptData gcm (snd p) key of
        Inl e \<Rightarrow> (fst p, Str (js ''[DECRYPTION FAILED]''))
      | Inr plaintext \<Rightarrow> (fst p, Str plaintext))"

text \<open>
  \<open>decrypted[k] = v\<close> on the object that \<open>{}\<close> has made. \<open>__proto__\<close> is an accessor
  property of \<open>Object.prototype\<close>: as long as the object has that prototype, the
  assignment calls the setter and creates no own property; the setter removes the
  prototype when the value is \<open>null\<close> and does nothing for a string, a number or
  \<open>undefined\<close>. Once the prototype is removed, \<open>__proto__\<close> is a name like any other.
  For every other name the assignment is \<open>set_property\<close>.
\<close>

record js_object =
  own :: object
  has_prototype :: bool

definition empty_object :: js_object where
  "empty_object = \<lparr>own = [], has_prototype = True\<rparr>"

definition js_assign :: "jsstring \<Rightarrow> jsvalue \<Rightarrow> js_object \<Rightarrow> js_object" where
  "js_assign k v ob =
     (if k = js ''__proto__'' \<and> has_prototype ob
      then (if v = Null then ob\<lparr>has_prototype := False\<rparr> else ob)
      else ob\<lparr>own := set_property k v (own ob)\<rparr>)"

definition assign_all :: "object \<Rightarrow> js_object \<Rightarrow> js_object" where
  "assign_all ws ob = foldl (\<lambda>acc w. js_assign (fst w) (snd w) acc) ob ws"

text \<open>
  \<open>decryptObject\<close>, given the order \<open>settled\<close> in which the pending decryptions
  settle; the result is the list of the own properties of \<open>decrypted\<close>.
\<close>

definition decryptObject_settling ::
  "aes_gcm \<Rightarrow> object \<Rightarrow> crypto_key \<Rightarrow> (jsstring \<times> jsstring) list \<Rightarrow> object" where
  "decryptObject_settling gcm encryptedObj key settled =
     own (assign_all (immediate_writes encryptedObj @ map (settle gcm key) settled) empty_object)"

text \<open>
  \<open>decryptData\<close> throws before its first \<open>await\<close> when \<open>atob\<close> rejects the wire
  string; otherwise it waits for \<open>crypto.subtle.decrypt\<close>. The callbacks whose
  \<open>decryptData\<close> has thrown at once resume first, as microtasks, in the order of the
  entries. The others resume when their decryption has completed, and the platform
  may complete the decryptions in any order. \<open>decryptObject\<close> is the run in which they
  complete in the order in which they were started.
\<close>

definition rejects_at_once :: "jsstring \<times> jsstring \<Rightarrow> bool" where
  "rejects_at_once p = (case atob (snd p) of Inl e \<Rightarrow> True | Inr binary \<Rightarrow> False)"

definition settling_order :: "object \<Rightarrow> (jsstring \<times> jsstring) list \<Rightarrow> bool" where
  "settling_order encryptedObj settled =
     (let early = filter rejects_at_once (pending encryptedObj) in
      take (length early) settled = early
      \<and> mset (drop (length early) settled)
          = mset (filter (\<lambda>p. \<not> rejects_at_once p) (pending encryptedObj)))"

definition decryptObject :: "aes_gcm \<Rightarrow> object \<Rightarrow> crypto_key \<Rightarrow> object" where
  "decryptObject gcm encryptedObj key =
     decryptObject_settling gcm encryptedObj key
       (filter rejects_at_once (pending encryptedObj)
        @ filter (\<lambda>p. \<not> rejects_at_once p) (pending encryptedObj))"

subsection \<open>\<open>deriveKey\<close>\<close>

text \<open>
  The client derives its key with the \<open>extractable\<close> argument of
  \<open>crypto.subtle.deriveKey\<close> false.
\<close>

definition PBKDF2_ITERATIONS :: nat where
  "PBKDF2_ITERATIONS = 300000"

definition deriveKey :: "pbkdf2 \<Rightarrow> jsstring \<Rightarrow> jsstring \<Rightarrow> crypto_key" where
  "deriveKey kdf password salt =
     \<lparr>key_raw = kdf (TextEncoder_encode password) (TextEncoder_encode salt) PBKDF2_ITERATIONS,
      extractable = False\<rparr>"

section \<open>Client: store.ts (\<open>useVaultStore\<close>)\<close>

record vault_state =
  masterKey :: "crypto_key option"
  userSalt :: "jsstring option"
  isUnlocked :: bool
  unlockExpiry :: "int option"

text \<open>The item \<open>accmanager-vault-session\<close> of \<open>sessionStorage\<close>, as JSON holds it.\<close>

record vault_session =
  session_key :: bytes
  session_expiry :: int

record world =
  vault :: vault_state
  sessionStorage :: "vault_session option"

definition DEFAULT_UNLOCK_DURATION :: int where
  "DEFAULT_UNLOCK_DURATION = 15 * 60 * 1000"

definition initial_vault :: vault_state where
  "initial_vault = \<lparr>masterKey = None, userSalt = None, isUnlocked = False, unlockExpiry = None\<rparr>"

text \<open>
  \<open>storeVaultSession\<close>: \<open>now\<close> is \<open>Date.now()\<close> when the export has resolved. A rejected
  export is caught and logged, and nothing is stored.
\<close>

definition storeVaultSession ::
  "crypto_key \<Rightarrow> int \<Rightarrow> int \<Rightarrow> vault_session option \<Rightarrow> vault_session option" where
  "storeVaultSession key duration now store =
     (case exportKey key of
        Inl e \<Rightarrow> store
      | Inr exported \<Rightarrow> Some \<lparr>session_key = exported, session_expiry = now + duration\<rparr>)"

text \<open>
  \<open>retrieveVaultSession\<close> returns the key (or null) and the storage it leaves. An
  expired item is removed; so is one whose import fails.
\<close>

definition retrieveVaultSession ::
  "int \<Rightarrow> vault_session option \<Rightarrow> crypto_key option \<times> vault_session option" where
  "retrieveVaultSession now store =
     (case store of
        None \<Rightarrow> (None, store)
      | Some stored \<Rightarrow>
          if now > session_expiry stored then (None, None)
          else (case importKey_aes (session_key stored) of
                  Inl e \<Rightarrow> (None, None)
                | Inr key \<Rightarrow> (Some key, store)))"

definition clearVaultSession :: "vault_session option \<Rightarrow> vault_session option" where
  "clearVaultSession store = None"

text \<open>
  \<open>setMasterKey(key, rememberFor = DEFAULT_UNLOCK_DURATION)\<close>: \<open>now\<close> is \<open>Date.now()\<close>
  in the setter, \<open>now'\<close> the later \<open>Date.now()\<close> inside \<open>storeVaultSession\<close>.
\<close>

definition setMasterKey :: "crypto_key \<Rightarrow> int option \<Rightarrow> int \<Rightarrow> int \<Rightarrow> world \<Rightarrow> world" where
  "setMasterKey key rememberFor_opt now now' w =
     (let rememberFor = (case rememberFor_opt of None \<Rightarrow> DEFAULT_UNLOCK_DURATION | Some d \<Rightarrow> d)
      in \<lparr>vault = (vault w)\<lparr>masterKey := Some key, isUnlocked := True,
                              unlockExpiry := Some (now + rememberFor)\<rparr>,
          sessionStorage = storeVaultSession key rememberFor now' (sessionStorage w)\<rparr>)"

definition clearMasterKey :: "world \<Rightarrow> world" where
  "clearMasterKey w =
     \<lparr>vault = (vault w)\<lparr>masterKey := None, isUnlocked := False, unlockExpiry := None\<rparr>,
      sessionStorage = clearVaultSession (sessionStorage w)\<rparr>"

definition setUserSalt :: "jsstring option \<Rightarrow> world \<Rightarrow> world" where
  "setUserSalt salt w = w\<lparr>vault := (vault w)\<lparr>userSalt := salt\<rparr>\<rparr>"

text \<open>
  \<open>checkUnlockStatus\<close>: the boolean it returns, and the world once the promise of
  \<open>retrieveVaultSession\<close> has settled. \<open>now\<close> is \<open>Date.now()\<close> in the condition,
  \<open>now'\<close> the one in \<open>retrieveVaultSession\<close>. A number is truthy when it is not 0.
\<close>

definition checkUnlockStatus :: "int \<Rightarrow> int \<Rightarrow> world \<Rightarrow> bool \<times> world" where
  "checkUnlockStatus now now' w =
     (let state = vault w in
      if masterKey state \<noteq> None
         \<and> (case unlockExpiry state of None \<Rightarrow> False | Some e \<Rightarrow> e \<noteq> 0 \<and> now < e)
      then (True, w)
      else (case retrieveVaultSession now' (sessionStorage w) of
              (Some key, store') \<Rightarrow>
                (False, \<lparr>vault = state\<lparr>masterKey := Some key, isUnlocked := True\<rparr>,
                         sessionStorage = store'\<rparr>)
            | (None, store') \<Rightarrow> (False, \<lparr>vault = state, sessionStorage = store'\<rparr>)))"

text \<open>
  A page reload starts the store again from its initial state; \<open>sessionStorage\<close> lives
  as long as the tab.
\<close>

definition reload :: "world \<Rightarrow> world" where
  "reload w = \<lparr>vault = initial_vault, sessionStorage = sessionStorage w\<rparr>"

section \<open>Worker: handlers/auth.ts (\<open>resetPassword\<close>)\<close>

text \<open>
  \<open>hashToken\<close>: SHA-256 is a parameter of the model; the digest is printed as lower-case
  hexadecimal, two digits a byte.
\<close>

type_synonym sha256 = "bytes \<Rightarrow> bytes"

definition hex_digit :: "nat \<Rightarrow> jschar" where
  "hex_digit n = (if n < 10 then of_nat (48 + n) else of_nat (87 + n))"

definition hex_of_bytes :: "bytes \<Rightarrow> jsstring" where
  "hex_of_bytes bs = concat (map (\<lambda>b. [hex_digit (unat b div 16), hex_digit (unat b mod 16)]) bs)"

definition hashToken :: "sha256 \<Rightarrow> jsstring \<Rightarrow> jsstring" where
  "hashToken sha tok = hex_of_bytes (sha (TextEncoder_encode tok))"

text \<open>
  The tables that \<open>resetPassword\<close> reads and writes, with the columns it uses.
  \<open>expires_at\<close> holds what \<open>new Date(expires_at).getTime()\<close> makes of the column:
  milliseconds, or \<open>None\<close> for NaN.
\<close>

record user_row =
  user_id :: int
  password_hash :: jsstring

record session_row =
  session_token :: jsstring
  session_user_id :: int

record reset_token_row =
  token_hash :: jsstring
  token_user_id :: int
  expires_at :: "int option"
  used :: int

record db =
  users :: "user_row list"
  sessions :: "session_row list"
  password_reset_tokens :: "reset_token_row list"

record reset_body =
  token :: jsstring
  newPassword :: jsstring

datatype response = Json_error string nat | Json_success string

text \<open>
  \<open>resetPassword\<close> talks to the database twice, with \<open>await\<close>s in between: first the
  \<open>SELECT\<close>, then either nothing, the \<open>DELETE\<close> of an expired token, or the batch of
  three statements. \<open>reset_step\<close> is what the handler holds after the \<open>SELECT\<close>.
\<close>

datatype reset_step =
    Respond response
  | Delete_expired jsstring
  | Commit jsstring int jsstring

definition resetPassword_select ::
  "sha256 \<Rightarrow> pbkdf2 \<Rightarrow> reset_body \<Rightarrow> int \<Rightarrow> rng \<Rightarrow> db \<Rightarrow> reset_step \<times> rng" where
  "resetPassword_select sha kdf body now r d =
     (if length (token body) < 10 \<or> length (newPassword body) < 12
      then (Respond (Json_error ''Validation failed'' 400), r)
      else
        (let tokenHash = hashToken sha (token body) in
         case find (\<lambda>row. token_hash row = tokenHash) (password_reset_tokens d) of
           None \<Rightarrow> (Respond (Json_error ''Invalid or expired token'' 400), r)
         | Some tokenRecord \<Rightarrow>
             if used tokenRecord \<noteq> 0 then (Respond (Json_error ''Token already used'' 400), r)
             else if (case expires_at tokenRecord of None \<Rightarrow> True | Some expires \<Rightarrow> expires < now)
             then (Delete_expired tokenHash, r)
             else (case hashPassword kdf (newPassword body) r of
                     (Inl e, r') \<Rightarrow> (Respond (Json_error ''Failed to reset password'' 500), r')
                   | (Inr passwordHash, r') \<Rightarrow>
                       (Commit passwordHash (token_user_id tokenRecord) tokenHash, r'))))"

definition resetPassword_write :: "reset_step \<Rightarrow> db \<Rightarrow> response \<times> db" where
  "resetPassword_write step d =
     (case step of
        Respond resp \<Rightarrow> (resp, d)
      | Delete_expired tokenHash \<Rightarrow>
          (Json_error ''Token has expired'' 400,
           d\<lparr>password_reset_tokens :=
                filter (\<lambda>row. token_hash row \<noteq> tokenHash) (password_reset_tokens d)\<rparr>)
      | Commit passwordHash uid tokenHash \<Rightarrow>
          (Json_success ''Password reset successfully.'',
           d\<lparr>users := map (\<lambda>u. if user_id u = uid then u\<lparr>password_hash := passwordHash\<rparr> else u)
                         (users d),
              sessions := filter (\<lambda>s. session_user_id s \<noteq> uid) (sessions d),
              password_reset_tokens :=
                map (\<lambda>row. if token_hash row = tokenHash then row\<lparr>used := 1\<rparr> else row)
                  (password_reset_tokens d)\<rparr>))"

text \<open>One request, with no other request between its two database calls.\<close>

definition resetPassword ::
  "sha256 \<Rightarrow> pbkdf2 \<Rightarrow> reset_body \<Rightarrow> int \<Rightarrow> rng \<Rightarrow> db \<Rightarrow> response \<times> db \<times> rng" where
  "resetPassword sha kdf body now r d =
     (let (step, r') = resetPassword_select sha kdf body now r d;
          (resp, d') = resetPassword_write step d
      in (resp, d', r'))"

text \<open>
  Two requests whose \<open>SELECT\<close>s both run before either batch: the order in which two
  invocations of the worker can reach the database.
\<close>

definition resetPassword_interleaved ::
  "sha256 \<Rightarrow> pbkdf2 \<Rightarrow> reset_body \<Rightarrow> reset_body \<Rightarrow> int \<Rightarrow> rng \<Rightarrow> db \<Rightarrow> response \<times> response \<times> db" where
  "resetPassword_interleaved sha kdf bodyA bodyB now r d =
     (let (stepA, r1) = resetPassword_select sha kdf bodyA now r d;
          (stepB, r2) = resetPassword_select sha kdf bodyB now r1 d;
          (respA, d1) = resetPassword_write stepA d;
          (respB, d2) = resetPassword_write stepB d1
      in (respA, respB, d2))"

section \<open>Notions used in the statements\<close>

text \<open>
  The cipher decrypts what it has encrypted: the correctness of AES-GCM, which the model
  takes as a hypothesis on its parameter.
\<close>

definition gcm_correct :: "aes_gcm \<Rightarrow> bool" where
  "gcm_correct gcm = (\<forall>k n p. unseal gcm k n (seal gcm k n p) = Some p)"

text \<open>The bytes that \<open>encrypt\<close> puts on the wire.\<close>

definition wire_bytes :: "aes_gcm \<Rightarrow> crypto_key \<Rightarrow> jsstring \<Rightarrow> rng \<Rightarrow> bytes" where
  "wire_bytes gcm key plaintext r =
     (let nonce = fst (getRandomValues AES_GCM_NONCE_BYTES r)
      in nonce @ seal gcm (key_raw key) nonce (TextEncoder_encode plaintext))"

text \<open>Bit \<open>j\<close> of code unit \<open>i\<close> of a string, flipped.\<close>

definition flip_bit_at :: "nat \<Rightarrow> nat \<Rightarrow> jsstring \<Rightarrow> jsstring" where
  "flip_bit_at i j w = w[i := flip_bit j (w ! i)]"

text \<open>
  The integrity of AES-GCM at a string \<open>w'\<close>: if \<open>w'\<close> is base64, the cipher rejects its
  bytes unless they are the bytes \<open>sealed\<close>. AES-GCM gives this up to a negligible
  chance of forgery; the model takes it as a hypothesis on its parameter.
\<close>

definition rejects_other :: "aes_gcm \<Rightarrow> crypto_key \<Rightarrow> bytes \<Rightarrow> jsstring \<Rightarrow> bool" where
  "rejects_other gcm key sealed w' =
     (case fromBase64 w' of
        Inl e \<Rightarrow> True
      | Inr bs \<Rightarrow>
          bs = sealed
          \<or> unseal gcm (key_raw key) (take AES_GCM_NONCE_BYTES bs) (drop AES_GCM_NONCE_BYTES bs)
              = None)"

text \<open>
  The names under which \<open>decryptObject\<close> writes the \<open>*_encrypted\<close> fields of a wire
  object, and the condition that no two writes of \<open>decryptObject\<close> go to one name. The
  record types of the application (accounts, secrets) satisfy it.
\<close>

definition bare_names :: "object \<Rightarrow> jsstring set" where
  "bare_names obj = set (map originalKey (filter endsWith_encrypted (map fst obj)))"

definition names_distinct :: "object \<Rightarrow> bool" where
  "names_distinct obj = distinct (map fst (immediate_writes obj) @ map fst (pending obj))"

text \<open>
  What \<open>decryptObject\<close> assigns for a \<open>*_encrypted\<close> field with the wire value \<open>v\<close>:
  the plaintext or the failure marker for a non-empty string, and null otherwise.
\<close>

definition field_value :: "aes_gcm \<Rightarrow> crypto_key \<Rightarrow> jsvalue \<Rightarrow> jsvalue" where
  "field_value gcm key v =
     (case v of
        Str w \<Rightarrow> if length w > 0 then snd (settle gcm key ([], w)) else Null
      | _ \<Rightarrow> Null)"



definition advance :: "nat \<Rightarrow> rng \<Rightarrow> rng" where
  "advance n r = (\<lambda>i. r (i + n))"


section \<open>Concrete primitives for evaluation\<close>

text \<open>
  A key derivation function with which the model can be run on concrete inputs. It
  returns 32 bytes, as \<open>deriveBits\<close> with a length of 256 does.
\<close>

definition xor_kdf :: pbkdf2 where
  "xor_kdf password salt iterations = replicate 32 (foldl (XOR) (of_nat iterations) (password @ salt))"

text \<open>
  A cipher with which the model can be run: it masks the plaintext with a byte made from
  key and nonce and appends sixteen tag bytes made from key, nonce and plaintext;
  \<open>xor_unseal\<close> recomputes the tag and rejects when it differs. It is correct in the
  sense of \<open>gcm_correct\<close> and has no other property of AES-GCM.
\<close>

definition xor_pad :: "bytes \<Rightarrow> bytes \<Rightarrow> byte" where
  "xor_pad k n = foldl (XOR) 0 (k @ n)"

definition xor_tag :: "bytes \<Rightarrow> bytes \<Rightarrow> bytes \<Rightarrow> bytes" where
  "xor_tag k n p = (let t = foldl (+) (xor_pad k n) p in [t, t, t, t, t, t, t, t, t, t, t, t, t, t, t, t])"

definition xor_seal :: "bytes \<Rightarrow> bytes \<Rightarrow> bytes \<Rightarrow> bytes" where
  "xor_seal k n p = map (\<lambda>b. b XOR xor_pad k n) p @ xor_tag k n p"

definition xor_unseal :: "bytes \<Rightarrow> bytes \<Rightarrow> bytes \<Rightarrow> bytes option" where
  "xor_unseal k n c =
     (if length c < 16 then None
      else (let p = map (\<lambda>b. b XOR xor_pad k n) (take (length c - 16) c) in
            if drop (length c - 16) c = xor_tag k n p then Some p else None))"

definition xor_gcm :: aes_gcm where
  "xor_gcm = \<lparr>seal = xor_seal, unseal = xor_unseal\<rparr>"

text \<open>A random source, and a key of 256 bits.\<close>

definition counting_rng :: rng where
  "counting_rng i = of_nat i"

definition example_key :: crypto_key where
  "example_key =
     \<lparr>key_raw = [0x2A, 0, 0, 0, 0, 0, 0, 0, 0, 0, 0, 0, 0, 0, 0, 0,
                 0, 0, 0, 0, 0, 0, 0, 0, 0, 0, 0, 0, 0, 0, 0, 0],
      extractable = False\<rparr>"

text \<open>
  A wire record of a secret whose \<open>value_encrypted\<close> is not base64; a wire object in
  which two keys have one bare name, the first with a wire string that has one bit
  flipped; the fields of a form, and their wire object.
\<close>

definition example_record :: object where
  "example_record =
     [(js ''id'', Num 7), (js ''user_id'', Num 42),
      (js ''secret_name_encrypted'', Str (js ''AAECAwQFBgcICQoLWktZWeHh4eHh4eHh4eHh4eHh4eE='')),
      (js ''description_encrypted'', Null),
      (js ''value_encrypted'', Str (js ''!!!'')),
      (js ''date_modified'', Str (js ''2024-05-01''))]"

definition colliding_record :: object where
  "colliding_record =
     [(js ''_encrypteda_encrypted'', Str (js ''AAECAwQFBgcICQoLWktZVeHh4eHh4eHh4eHh4eHh4eE='')),
      (js ''a_encrypted_encrypted'', Str (js ''AAECAwQFBgcICQoLWktZWeHh4eHh4eHh4eHh4eHh4eE=''))]"



text \<open>A database with one user, one session and one reset token, unused and unexpired.\<close>

definition example_db :: "jsstring \<Rightarrow> db" where
  "example_db h =
     \<lparr>users = [\<lparr>user_id = 7, password_hash = js ''$pbkdf2$100$AA==$AA==''\<rparr>],
      sessions = [\<lparr>session_token = js ''session-1'', session_user_id = 7\<rparr>],
      password_reset_tokens =
        [\<lparr>token_hash = h, token_user_id = 7, expires_at = Some 5000, used = 0\<rparr>]\<rparr>"

section \<open>Text: decoding what was encoded\<close>

lemma unat_of_nat8: "n < 256 \<Longrightarrow> unat (of_nat n :: byte) = n"
  by (simp add: unat_of_nat)

lemma split64: "(c::nat) = (c div 4096 * 64 + c div 64 mod 64) * 64 + c mod 64"
proof -
  have "c div 64 = c div 64 div 64 * 64 + c div 64 mod 64" by simp
  moreover have "c div 64 div 64 = c div 4096" by (simp add: div_mult2_eq[symmetric])
  moreover have "c = c div 64 * 64 + c mod 64" by simp
  ultimately show ?thesis by simp
qed

lemma split64_4:
  "(c::nat) = ((c div 262144 * 64 + c div 4096 mod 64) * 64 + c div 64 mod 64) * 64 + c mod 64"
proof -
  have "c div 4096 = c div 4096 div 64 * 64 + c div 4096 mod 64" by simp
  moreover have "c div 4096 div 64 = c div 262144" by (simp add: div_mult2_eq[symmetric])
  ultimately have "c div 4096 = c div 262144 * 64 + c div 4096 mod 64" by simp
  then show ?thesis using split64[of c] by simp
qed

lemma mod_add_mult: "q < n \<Longrightarrow> (k * n + q) mod n = (q::nat)"
  by simp

lemma loop_ascii:
  "unat b \<le> 0x7F \<Longrightarrow>
   utf8_decode_loop cp seen 0 lo hi (b # bs) = unat b # utf8_decode_loop cp seen 0 lo hi bs"
  by (simp add: utf8_decode_loop.simps Let_def)

lemma loop_lead2:
  "0xC2 \<le> unat b \<Longrightarrow> unat b \<le> 0xDF \<Longrightarrow>
   utf8_decode_loop cp seen 0 lo hi (b # bs) = utf8_decode_loop (unat b mod 32) seen 1 lo hi bs"
  by (simp add: utf8_decode_loop.simps Let_def)

lemma loop_lead3:
  "0xE0 \<le> unat b \<Longrightarrow> unat b \<le> 0xEF \<Longrightarrow>
   utf8_decode_loop cp seen 0 lo hi (b # bs) =
   utf8_decode_loop (unat b mod 16) seen 2
     (if unat b = 0xE0 then 0xA0 else lo) (if unat b = 0xED then 0x9F else hi) bs"
  by (simp add: utf8_decode_loop.simps Let_def)

lemma loop_lead4:
  "0xF0 \<le> unat b \<Longrightarrow> unat b \<le> 0xF4 \<Longrightarrow>
   utf8_decode_loop cp seen 0 lo hi (b # bs) =
   utf8_decode_loop (unat b mod 8) seen 3
     (if unat b = 0xF0 then 0x90 else lo) (if unat b = 0xF4 then 0x8F else hi) bs"
  by (simp add: utf8_decode_loop.simps Let_def)

lemma loop_cont:
  "needed \<noteq> 0 \<Longrightarrow> lo \<le> unat b \<Longrightarrow> unat b \<le> hi \<Longrightarrow>
   utf8_decode_loop cp seen needed lo hi (b # bs) =
   (if seen + 1 \<noteq> needed
    then utf8_decode_loop (cp * 64 + unat b mod 64) (seen + 1) needed 0x80 0xBF bs
    else (cp * 64 + unat b mod 64) # utf8_decode_loop 0 0 0 0x80 0xBF bs)"
  by (simp add: utf8_decode_loop.simps Let_def)

lemma decode_1:
  assumes "c < 0x80"
  shows "utf8_decode (utf8_encode_cp c @ rest) = c # utf8_decode rest"
proof -
  define b0 :: byte where "b0 = of_nat c"
  have u0: "unat b0 = c" unfolding b0_def using assms by (intro unat_of_nat8) simp
  have "utf8_encode_cp c = [b0]" using assms by (simp add: utf8_encode_cp_def b0_def)
  then show ?thesis using assms by (simp add: utf8_decode_def u0 loop_ascii)
qed

lemma decode_2:
  assumes "0x80 \<le> c" and "c < 0x800"
  shows "utf8_decode (utf8_encode_cp c @ rest) = c # utf8_decode rest"
proof -
  define q where "q = c div 64"
  define l where "l = c mod 64"
  define b0 :: byte where "b0 = of_nat (0xC0 + q)"
  define b1 :: byte where "b1 = of_nat (0x80 + l)"
  have q: "2 \<le> q" "q < 32" using assms by (simp_all add: q_def)
  have l: "l < 64" by (simp add: l_def)
  have c: "c = q * 64 + l" by (simp add: q_def l_def)
  have u0: "unat b0 = 0xC0 + q" unfolding b0_def using q by (intro unat_of_nat8) simp
  have u1: "unat b1 = 0x80 + l" unfolding b1_def using l by (intro unat_of_nat8) simp
  have m0: "(0xC0 + q) mod 32 = q" using q mod_add_mult[of q 32 6] by simp
  have m1: "(0x80 + l) mod 64 = l" using l mod_add_mult[of l 64 2] by simp
  have "utf8_encode_cp c = [b0, b1]"
    using assms by (simp add: utf8_encode_cp_def b0_def b1_def q_def l_def del: of_nat_add)
  then show ?thesis using q l by (simp add: utf8_decode_def u0 u1 m0 m1 c loop_lead2 loop_cont)
qed


lemma decode_3:
  assumes "0x800 \<le> c" and "c < 0x10000" and "\<not> (0xD800 \<le> c \<and> c \<le> 0xDFFF)"
  shows "utf8_decode (utf8_encode_cp c @ rest) = c # utf8_decode rest"
proof -
  define q where "q = c div 4096"
  define m where "m = c div 64 mod 64"
  define l where "l = c mod 64"
  define b0 :: byte where "b0 = of_nat (0xE0 + q)"
  define b1 :: byte where "b1 = of_nat (0x80 + m)"
  define b2 :: byte where "b2 = of_nat (0x80 + l)"
  have q: "q < 16" using assms by (simp add: q_def)
  have m: "m < 64" by (simp add: m_def)
  have l: "l < 64" by (simp add: l_def)
  have c: "c = (q * 64 + m) * 64 + l" unfolding q_def m_def l_def by (rule split64)
  have lo: "(if q = 0 then 0xA0 else 0x80) \<le> 0x80 + m" using c assms(1) l by (simp split: if_splits) arith?
  have hi: "0x80 + m \<le> (if q = 13 then 0x9F else 0xBF)" using c assms(3) l m by (simp split: if_splits) arith?
  have u0: "unat b0 = 0xE0 + q" unfolding b0_def using q by (intro unat_of_nat8) simp
  have u1: "unat b1 = 0x80 + m" unfolding b1_def using m by (intro unat_of_nat8) simp
  have u2: "unat b2 = 0x80 + l" unfolding b2_def using l by (intro unat_of_nat8) simp
  have m0: "(0xE0 + q) mod 16 = q" using q mod_add_mult[of q 16 14] by simp
  have m1: "(0x80 + m) mod 64 = m" using m mod_add_mult[of m 64 2] by simp
  have m2: "(0x80 + l) mod 64 = l" using l mod_add_mult[of l 64 2] by simp
  have enc: "utf8_encode_cp c = [b0, b1, b2]"
    using assms by (simp add: utf8_encode_cp_def b0_def b1_def b2_def q_def m_def l_def del: of_nat_add)
  have s1: "utf8_decode_loop 0 0 0 0x80 0xBF (b0 # b1 # b2 # rest) =
            utf8_decode_loop q 0 2 (if q = 0 then 0xA0 else 0x80) (if q = 13 then 0x9F else 0xBF) (b1 # b2 # rest)"
    using q by (simp add: u0 m0 loop_lead3)
  have s2: "utf8_decode_loop q 0 2 (if q = 0 then 0xA0 else 0x80) (if q = 13 then 0x9F else 0xBF) (b1 # b2 # rest) =
            utf8_decode_loop (q * 64 + m) 1 2 0x80 0xBF (b2 # rest)"
    using lo hi by (subst loop_cont) (simp_all add: u1 m1)
  have s3: "utf8_decode_loop (q * 64 + m) 1 2 0x80 0xBF (b2 # rest) =
            c # utf8_decode_loop 0 0 0 0x80 0xBF rest"
    using l by (subst loop_cont) (simp_all add: u2 m2 c)
  show ?thesis by (simp only: enc utf8_decode_def append.simps s1 s2 s3)
qed

lemma decode_4:
  assumes "0x10000 \<le> c" and "c < 0x110000"
  shows "utf8_decode (utf8_encode_cp c @ rest) = c # utf8_decode rest"
proof -
  define q where "q = c div 262144"
  define n where "n = c div 4096 mod 64"
  define m where "m = c div 64 mod 64"
  define l where "l = c mod 64"
  define b0 :: byte where "b0 = of_nat (0xF0 + q)"
  define b1 :: byte where "b1 = of_nat (0x80 + n)"
  define b2 :: byte where "b2 = of_nat (0x80 + m)"
  define b3 :: byte where "b3 = of_nat (0x80 + l)"
  have q: "q < 5" using assms by (simp add: q_def)
  have n: "n < 64" by (simp add: n_def)
  have m: "m < 64" by (simp add: m_def)
  have l: "l < 64" by (simp add: l_def)
  have c: "c = ((q * 64 + n) * 64 + m) * 64 + l" unfolding q_def n_def m_def l_def by (rule split64_4)
  have lo: "(if q = 0 then 0x90 else 0x80) \<le> 0x80 + n" using c assms(1) l m by (simp split: if_splits) arith?
  have hi: "0x80 + n \<le> (if q = 4 then 0x8F else 0xBF)" using c assms(2) l m n by (simp split: if_splits) arith?
  have u0: "unat b0 = 0xF0 + q" unfolding b0_def using q by (intro unat_of_nat8) simp
  have u1: "unat b1 = 0x80 + n" unfolding b1_def using n by (intro unat_of_nat8) simp
  have u2: "unat b2 = 0x80 + m" unfolding b2_def using m by (intro unat_of_nat8) simp
  have u3: "unat b3 = 0x80 + l" unfolding b3_def using l by (intro unat_of_nat8) simp
  have m0: "(0xF0 + q) mod 8 = q" using q mod_add_mult[of q 8 30] by simp
  have m1: "(0x80 + n) mod 64 = n" using n mod_add_mult[of n 64 2] by simp
  have m2: "(0x80 + m) mod 64 = m" using m mod_add_mult[of m 64 2] by simp
  have m3: "(0x80 + l) mod 64 = l" using l mod_add_mult[of l 64 2] by simp
  have enc: "utf8_encode_cp c = [b0, b1, b2, b3]"
    using assms
    by (simp add: utf8_encode_cp_def b0_def b1_def b2_def b3_def q_def n_def m_def l_def del: of_nat_add)
  have s1: "utf8_decode_loop 0 0 0 0x80 0xBF (b0 # b1 # b2 # b3 # rest) =
            utf8_decode_loop q 0 3 (if q = 0 then 0x90 else 0x80) (if q = 4 then 0x8F else 0xBF) (b1 # b2 # b3 # rest)"
    using q by (simp add: u0 m0 loop_lead4)
  have s2: "utf8_decode_loop q 0 3 (if q = 0 then 0x90 else 0x80) (if q = 4 then 0x8F else 0xBF) (b1 # b2 # b3 # rest) =
            utf8_decode_loop (q * 64 + n) 1 3 0x80 0xBF (b2 # b3 # rest)"
    using lo hi by (subst loop_cont) (simp_all add: u1 m1)
  have s3: "utf8_decode_loop (q * 64 + n) 1 3 0x80 0xBF (b2 # b3 # rest) =
            utf8_decode_loop ((q * 64 + n) * 64 + m) 2 3 0x80 0xBF (b3 # rest)"
    using m by (subst loop_cont) (simp_all add: u2 m2 numeral_2_eq_2)
  have s4: "utf8_decode_loop ((q * 64 + n) * 64 + m) 2 3 0x80 0xBF (b3 # rest) =
            c # utf8_decode_loop 0 0 0 0x80 0xBF rest"
    using l by (subst loop_cont) (simp_all add: u3 m3 c)
  show ?thesis by (simp only: enc utf8_decode_def append.simps s1 s2 s3 s4)
qed


lemma decode_encode_cp:
  "is_scalar c \<Longrightarrow> utf8_decode (utf8_encode_cp c @ rest) = c # utf8_decode rest"
proof -
  assume s: "is_scalar c"
  consider "c < 0x80" | "0x80 \<le> c \<and> c < 0x800" | "0x800 \<le> c \<and> c < 0x10000" | "0x10000 \<le> c"
    by linarith
  then show ?thesis
  proof cases
    case 1 then show ?thesis by (rule decode_1)
  next
    case 2 then show ?thesis by (simp add: decode_2)
  next
    case 3 then show ?thesis using s by (simp add: decode_3 is_scalar_def)
  next
    case 4 then show ?thesis using s by (simp add: decode_4 is_scalar_def)
  qed
qed

lemma utf8_decode_Nil: "utf8_decode [] = []"
  by (simp add: utf8_decode_def utf8_decode_loop.simps)

lemma decode_encode_scalars:
  "list_all is_scalar cs \<Longrightarrow> utf8_decode (concat (map utf8_encode_cp cs)) = cs"
  by (induction cs) (simp_all add: decode_encode_cp utf8_decode_Nil)

lemma unat_jschar_less: "unat (u :: jschar) < 65536"
  using unsigned_less[of u, where ?'a = nat] by simp

lemma to_scalars_scalar: "list_all is_scalar (to_scalars s)"
proof (induction s rule: to_scalars.induct)
  case 1
  show ?case by simp
next
  case (2 u)
  show ?case using unat_jschar_less[of u] by (simp add: is_scalar_def is_surrogate_def)
next
  case (3 u v rest)
  have "unat u < 65536" "unat v < 65536" by (rule unat_jschar_less)+
  with 3 show ?case by (auto simp: is_scalar_def is_surrogate_def is_lead_def is_trail_def)
qed

lemma from_scalar_unit: "\<not> is_surrogate u \<Longrightarrow> from_scalar (unat u) = [u]"
  using unat_jschar_less[of u] by (simp add: from_scalar_def)

lemma from_scalar_pair:
  assumes "is_lead u" and "is_trail v"
  shows "from_scalar (0x10000 + (unat u - 0xD800) * 0x400 + (unat v - 0xDC00)) = [u, v]"
proof -
  define a where "a = unat u - 0xD800"
  define b where "b = unat v - 0xDC00"
  have a: "a < 0x400" "unat u = 0xD800 + a" using assms(1) by (auto simp: a_def is_lead_def)
  have b: "b < 0x400" "unat v = 0xDC00 + b" using assms(2) by (auto simp: b_def is_trail_def)
  have d: "(a * 0x400 + b) div 0x400 = a" "(a * 0x400 + b) mod 0x400 = b" using b(1) by simp_all
  have "(of_nat (unat u) :: jschar) = u" by simp
  then have "(of_nat (0xD800 + a) :: jschar) = u" by (simp only: a(2))
  moreover have "(of_nat (unat v) :: jschar) = v" by simp
  then have "(of_nat (0xDC00 + b) :: jschar) = v" by (simp only: b(2))
  ultimately show ?thesis
    using d by (simp add: from_scalar_def a_def[symmetric] b_def[symmetric] add.assoc del: of_nat_add)
qed

lemma from_to_scalars: "isWellFormed s \<Longrightarrow> concat (map from_scalar (to_scalars s)) = s"
  by (induction s rule: to_scalars.induct) (auto simp: from_scalar_unit from_scalar_pair)

lemma TextDecoder_TextEncoder:
  "TextDecoder_decode (TextEncoder_encode s) = concat (map from_scalar (strip_bom (to_scalars s)))"
  by (simp add: TextDecoder_decode_def TextEncoder_encode_def decode_encode_scalars to_scalars_scalar)

lemma unat_bom: "unat (u :: jschar) = 0xFEFF \<Longrightarrow> u = 0xFEFF"
proof -
  assume "unat u = 0xFEFF"
  then have "(of_nat (unat u) :: jschar) = of_nat 0xFEFF" by (simp only:)
  then show ?thesis by simp
qed

lemma strip_bom_to_scalars:
  assumes "\<not> prefix [0xFEFF] s"
  shows "strip_bom (to_scalars s) = to_scalars s"
proof (cases s rule: to_scalars.cases)
  case 1
  then show ?thesis by (simp add: strip_bom_def)
next
  case (2 u)
  with assms have "u \<noteq> 0xFEFF" by simp
  then have "unat u \<noteq> 0xFEFF" using unat_bom by blast
  with 2 show ?thesis by (simp add: strip_bom_def)
next
  case (3 u v rest)
  with assms have "u \<noteq> 0xFEFF" by simp
  then have "unat u \<noteq> 0xFEFF" using unat_bom by blast
  with 3 show ?thesis by (simp add: strip_bom_def)
qed

lemma text_round_trip:
  "isWellFormed s \<Longrightarrow> \<not> prefix [0xFEFF] s \<Longrightarrow> TextDecoder_decode (TextEncoder_encode s) = s"
  by (simp add: TextDecoder_TextEncoder strip_bom_to_scalars from_to_scalars)

section \<open>Base64: decoding what was encoded\<close>

lemma unat_of_nat16: "n < 65536 \<Longrightarrow> unat (of_nat n :: 16 word) = n"
  by (simp add: unat_of_nat)

lemma unat_b64_char:
  assumes "n < 64"
  shows "unat (b64_char n) =
     (if n < 26 then 65 + n else if n < 52 then 71 + n else if n < 62 then n - 4
      else if n = 62 then 43 else 47)"
  unfolding b64_char_def using assms
  by (simp add: unat_of_nat16 del: of_nat_add of_nat_diff)

lemma b64_val_char: "n < 64 \<Longrightarrow> b64_val (b64_char n) = Some n"
  unfolding b64_val_def Let_def by (simp add: unat_b64_char) arith

lemma b64_char_not_pad: "n < 64 \<Longrightarrow> b64_char n \<noteq> 61"
proof
  assume "n < 64" and "b64_char n = 61"
  then have "unat (b64_char n) = 61" by simp
  with \<open>n < 64\<close> show False by (simp add: unat_b64_char split: if_splits)
qed

lemma b64_char_not_ws: "n < 64 \<Longrightarrow> \<not> is_ascii_whitespace (b64_char n)"
proof
  assume n: "n < 64" and "is_ascii_whitespace (b64_char n)"
  then have "unat (b64_char n) \<in> {9, 10, 12, 13, 32}"
    by (auto simp: is_ascii_whitespace_def)
  with n show False by (simp add: unat_b64_char split: if_splits) arith
qed



lemma sextet_lt_1: "(a::nat) < 256 \<Longrightarrow> a div 4 < 64" by simp
lemma sextet_lt_2: "(a::nat) mod 4 * 16 < 64" by simp
lemma sextet_lt_3: "(b::nat) < 256 \<Longrightarrow> a mod 4 * 16 + b div 16 < 64"
proof -
  assume "b < 256"
  then have "b div 16 < 16" by simp
  moreover have "a mod 4 < 4" by simp
  ultimately show ?thesis by linarith
qed
lemma sextet_lt_4: "(b::nat) mod 16 * 4 < 64" by simp
lemma sextet_lt_5: "(c::nat) < 256 \<Longrightarrow> b mod 16 * 4 + c div 64 < 64"
proof -
  assume "c < 256"
  then have "c div 64 < 4" by simp
  moreover have "b mod 16 < 16" by simp
  ultimately show ?thesis by linarith
qed
lemma sextet_join_1: "(b::nat) < 256 \<Longrightarrow> a div 4 * 4 + (a mod 4 * 16 + b div 16) div 16 = a"
proof -
  assume "b < 256"
  then have "b div 16 < 16" by simp
  then have "(a mod 4 * 16 + b div 16) div 16 = a mod 4" by simp
  then show ?thesis by simp
qed
lemma sextet_join_2: "(b::nat) < 256 \<Longrightarrow> (c::nat) < 256 \<Longrightarrow> (a mod 4 * 16 + b div 16) mod 16 * 16 + (b mod 16 * 4 + c div 64) div 4 = b"
proof -
  assume "b < 256"
  assume "c < 256"
  then have "c div 64 < 4" by simp
  then have 1: "(b mod 16 * 4 + c div 64) div 4 = b mod 16" by simp
  have 2: "(a mod 4 * 16 + b div 16) mod 16 = b div 16 mod 16" by simp
  note \<open>b < 256\<close>
  then have "b div 16 < 16" by simp
  then have "b div 16 mod 16 = b div 16" by simp
  with 1 2 show ?thesis by simp
qed
lemma sextet_join_3: "(c::nat) < 256 \<Longrightarrow> (b mod 16 * 4 + c div 64) mod 4 * 64 + c mod 64 = c"
proof -
  assume "c < 256"
  then have "c div 64 < 4" by simp
  then have "(b mod 16 * 4 + c div 64) mod 4 = c div 64" by simp
  then show ?thesis by simp
qed

lemma sextet_join_4: "(b::nat) < 256 \<Longrightarrow> (a mod 4 * 16 + b div 16) mod 16 * 16 + (b mod 16 * 4) div 4 = b"
  using sextet_join_2[of b 0 a] by simp

lemma sextet_join_5: "a div 4 * 4 + (a mod 4 * 16) div 16 = (a::nat)"
  by simp

lemma b64_sextets_bound:
  "list_all (\<lambda>x. x < 256) xs \<Longrightarrow> list_all (\<lambda>v. v < 64) (b64_sextets xs)"
  by (induction xs rule: b64_sextets.induct) (simp_all add: sextet_lt_1 sextet_lt_3 sextet_lt_5)

lemma b64_decode_sextets: "list_all (\<lambda>x. x < 256) xs \<Longrightarrow> b64_decode (b64_sextets xs) = xs"
proof (induction xs rule: b64_sextets.induct)
  case 1
  show ?case by simp
next
  case (2 a)
  show ?case by (simp only: b64_sextets.simps b64_decode.simps sextet_join_5)
next
  case (3 a b)
  then have "b < 256" by simp
  then show ?case by (simp only: b64_sextets.simps b64_decode.simps sextet_join_1 sextet_join_4)
next
  case (4 a b c rest)
  then have b: "b < 256" and c: "c < 256" and r: "b64_decode (b64_sextets rest) = rest"
    by simp_all
  show ?case
    by (simp only: b64_sextets.simps b64_decode.simps append.simps sextet_join_1[OF b] sextet_join_2[OF b c] sextet_join_3[OF c] r)
qed


lemma b64_vals_map_char: "list_all (\<lambda>v. v < 64) vs \<Longrightarrow> b64_vals (map b64_char vs) = Some vs"
  by (induction vs) (simp_all add: b64_val_char)

lemma b64_vals_append:
  "b64_vals (xs @ ys) =
     (case b64_vals xs of None \<Rightarrow> None
      | Some vs \<Rightarrow> (case b64_vals ys of None \<Rightarrow> None | Some ws \<Rightarrow> Some (vs @ ws)))"
  by (induction xs) (simp_all split: option.splits)

lemma length_b64_sextets: "length (b64_sextets xs) mod 4 \<noteq> 1"
  by (induction xs rule: b64_sextets.induct) simp_all

lemma length_b64_encode: "length (b64_encode xs) mod 4 = 0"
  by (induction xs rule: b64_encode.induct) simp_all

lemma pad_not_ws: "\<not> is_ascii_whitespace 61"
  by (simp add: is_ascii_whitespace_def)

lemma filter_ws_b64_encode:
  "list_all (\<lambda>x. x < 256) xs \<Longrightarrow> filter (\<lambda>u. \<not> is_ascii_whitespace u) (b64_encode xs) = b64_encode xs"
  by (induction xs rule: b64_encode.induct)
     (simp_all add: b64_char_not_ws sextet_lt_1 sextet_lt_2 sextet_lt_3 sextet_lt_4 sextet_lt_5 pad_not_ws)

lemma strip_padding_append:
  "length b \<ge> 2 \<Longrightarrow> strip_padding (a @ b) = a @ strip_padding b"
proof -
  assume "length b \<ge> 2"
  then obtain x y r where b: "rev b = x # y # r"
    by (cases "rev b"; cases "tl (rev b)") (auto simp: Suc_le_eq)
  show ?thesis by (simp add: strip_padding_def b)
qed

lemma strip_padding_b64_encode:
  "list_all (\<lambda>x. x < 256) xs \<Longrightarrow> strip_padding (b64_encode xs) = map b64_char (b64_sextets xs)"
proof (induction xs rule: b64_encode.induct)
  case 1
  then show ?case by (simp add: strip_padding_def)
next
  case (2 a)
  then show ?case by (simp add: strip_padding_def)
next
  case (3 a b)
  then show ?case by (simp add: strip_padding_def b64_char_not_pad sextet_lt_4)
next
  case (4 a b c rest)
  show ?case
  proof (cases rest)
    case Nil
    with 4 show ?thesis by (simp add: strip_padding_def b64_char_not_pad sextet_lt_5)
  next
    case (Cons r rs)
    then have "length (b64_encode rest) \<ge> 2"
      by (cases rs; cases "tl rs") auto
    with 4 show ?thesis
      using strip_padding_append[of "b64_encode rest"
          "[b64_char (a div 4), b64_char (a mod 4 * 16 + b div 16),
            b64_char (b mod 16 * 4 + c div 64), b64_char (c mod 64)]"]
      by simp
  qed
qed

lemma atob_b64_encode:
  assumes "list_all (\<lambda>x. x < 256) xs"
  shows "atob (b64_encode xs) = Inr (map of_nat xs)"
  using assms length_b64_sextets[of xs]
  by (simp add: atob_def Let_def filter_ws_b64_encode length_b64_encode strip_padding_b64_encode
      b64_vals_map_char b64_sextets_bound b64_decode_sextets)

lemma unat_byte_less: "unat (b :: byte) < 256"
  using unsigned_less[of b, where ?'a = nat] by simp

lemma unat_ucast_8_16: "unat (ucast (b :: byte) :: jschar) = unat b"
  using unat_byte_less[of b] by (simp add: unsigned_ucast_eq take_bit_nat_eq_self)

lemma ucast_16_8: "(ucast (ucast (b :: byte) :: jschar) :: byte) = b"
  by (rule ucast_up_ucast_id) (simp add: is_up)

lemma btoa_bytes: "btoa (map ucast (bs :: bytes)) = Inr (b64_encode (map unat bs))"
proof -
  have "\<not> list_ex (\<lambda>u. unat u > 0xFF) (map ucast bs :: jsstring)"
  proof (induction bs)
    case (Cons b bs)
    have "unat b < 256" using unsigned_less[of b, where ?'a = nat] by simp
    with Cons show ?case by (simp add: unat_ucast_8_16)
  qed simp
  then show ?thesis by (simp add: btoa_def comp_def unat_ucast_8_16)
qed

lemma all_bytes_small: "list_all (\<lambda>x. x < 256) (map unat (bs :: bytes))"
proof (induction bs)
  case (Cons b bs)
  have "unat b < 256" using unsigned_less[of b, where ?'a = nat] by simp
  with Cons show ?case by simp
qed simp

lemma atob_btoa_bytes: "atob (b64_encode (map unat (bs :: bytes))) = Inr (map ucast bs)"
  by (simp add: atob_b64_encode all_bytes_small comp_def)

lemma fromBase64_toBase64:
  "toBase64 bs = Inr (b64_encode (map unat bs)) \<and> fromBase64 (b64_encode (map unat bs)) = Inr bs"
proof -
  have "map (ucast :: jschar \<Rightarrow> byte) (map ucast bs) = bs"
    by (induction bs) (simp_all add: ucast_16_8)
  then show ?thesis
    by (simp add: toBase64_def fromBase64_def btoa_bytes atob_btoa_bytes)
qed

section \<open>The field cipher: \<open>encrypt\<close>, \<open>decrypt\<close>, \<open>encryptData\<close>, \<open>decryptData\<close>\<close>

lemma xor_gcm_correct: "gcm_correct xor_gcm"
proof -
  have "map (\<lambda>b. b XOR x) (map (\<lambda>b. b XOR x) p) = p" for x :: byte and p
    by (induction p) (simp_all add: xor.assoc)
  then show ?thesis
    by (simp add: gcm_correct_def xor_gcm_def xor_unseal_def xor_seal_def xor_tag_def Let_def)
qed

lemma decryptData_eq_decrypt: "decryptData gcm encryptedData key = decrypt gcm key encryptedData"
  by (simp add: decryptData_def decrypt_def fromBase64_def NONCE_BYTES_def AES_GCM_NONCE_BYTES_def
      Let_def split: sum.splits)

lemma encrypt_wire:
  "fst (encrypt gcm key plaintext r) = Inr (b64_encode (map unat (wire_bytes gcm key plaintext r)))"
  by (simp add: encrypt_def wire_bytes_def subtle_encrypt_def Let_def split_def fromBase64_toBase64)

lemma encryptData_result:
  "encryptData gcm max_args d key r =
     ((if length (wire_bytes gcm key d r) \<le> max_args
       then Inr (b64_encode (map unat (wire_bytes gcm key d r))) else Inl RangeError),
      advance 12 r)"
  by (simp add: encryptData_def wire_bytes_def String_fromCharCode_spread_def subtle_encrypt_def
      getRandomValues_def NONCE_BYTES_def AES_GCM_NONCE_BYTES_def Let_def btoa_bytes advance_def
      del: map_append)

lemma decrypt_of_bytes:
  "fromBase64 w = Inr (wire_bytes gcm key plaintext r) \<Longrightarrow> gcm_correct gcm \<Longrightarrow>
   decrypt gcm key w = Inr (TextDecoder_decode (TextEncoder_encode plaintext))"
  by (simp add: decrypt_def wire_bytes_def Let_def getRandomValues_def AES_GCM_NONCE_BYTES_def
      subtle_decrypt_def gcm_correct_def)

lemma decrypt_encrypt_text:
  assumes "gcm_correct gcm"
  shows "\<exists>w. fst (encrypt gcm key plaintext r) = Inr w \<and>
             decrypt gcm key w = Inr (TextDecoder_decode (TextEncoder_encode plaintext))"
  using assms decrypt_of_bytes[of _ gcm key plaintext r] encrypt_wire[of gcm key plaintext r]
    fromBase64_toBase64[of "wire_bytes gcm key plaintext r"]
  by auto

lemma length_utf8_encode_cp:
  "1 \<le> length (utf8_encode_cp c)" "0x10000 \<le> c \<Longrightarrow> length (utf8_encode_cp c) = 4"
  by (simp_all add: utf8_encode_cp_def)

lemma length_TextEncoder_encode: "length s \<le> length (TextEncoder_encode s)"
proof (induction s rule: to_scalars.induct)
  case 1
  show ?case by (simp add: TextEncoder_encode_def)
next
  case (2 u)
  show ?case
    using length_utf8_encode_cp(1)[of "unat u"] length_utf8_encode_cp(1)[of "0xFFFD"]
    by (simp add: TextEncoder_encode_def)
next
  case (3 u v rest)
  show ?case
  proof (cases "is_lead u \<and> is_trail v")
    case True
    have "length (utf8_encode_cp (0x10000 + (unat u - 0xD800) * 0x400 + (unat v - 0xDC00))) = 4"
      by (rule length_utf8_encode_cp(2)) simp
    with True 3(1) show ?thesis by (simp add: TextEncoder_encode_def)
  next
    case False
    have e: "to_scalars (u # v # rest) =
               (if is_surrogate u then 0xFFFD else unat u) # to_scalars (v # rest)"
      by (simp only: to_scalars.simps False if_False)
    have "1 \<le> length (utf8_encode_cp (if is_surrogate u then 0xFFFD else unat u))"
      by (rule length_utf8_encode_cp(1))
    with 3(2)[OF False] show ?thesis unfolding TextEncoder_encode_def e by simp
  qed
qed

lemma length_wire_bytes_xor:
  "length (wire_bytes xor_gcm key d r) = 28 + length (TextEncoder_encode d)"
  by (simp add: wire_bytes_def xor_gcm_def xor_seal_def xor_tag_def getRandomValues_def
      AES_GCM_NONCE_BYTES_def Let_def)

lemmas eval_defs = wire_bytes_def xor_gcm_def xor_seal_def xor_tag_def xor_pad_def example_key_def
  counting_rng_def getRandomValues_def AES_GCM_NONCE_BYTES_def Let_def TextEncoder_encode_def
  utf8_encode_cp_def is_surrogate_def is_lead_def is_trail_def js_def

lemma wire_bytes_pass:
  "wire_bytes xor_gcm example_key (js ''pass'') counting_rng =
     [0, 1, 2, 3, 4, 5, 6, 7, 8, 9, 10, 11, 90, 75, 89, 89,
      225, 225, 225, 225, 225, 225, 225, 225, 225, 225, 225, 225, 225, 225, 225, 225]"
  by (simp add: eval_defs upt_rec)

lemma b64_pass:
  "b64_encode (map unat [0, 1, 2, 3, 4, 5, 6, 7, 8, 9, 10, 11, 90, 75, 89, 89,
      225, 225, 225, 225, 225, 225, 225, 225, 225, 225, 225, 225, 225, 225, 225, 225 :: byte])
   = js ''AAECAwQFBgcICQoLWktZWeHh4eHh4eHh4eHh4eHh4eE=''"
  by (simp add: b64_char_def js_def)

lemma atob_tampered:
  "fromBase64 (js ''AAECAwQFBgcICQoLWktZWeHh4eHh4eHh4eHh4eHh4eG='') =
   Inr [0, 1, 2, 3, 4, 5, 6, 7, 8, 9, 10, 11, 90, 75, 89, 89,
      225, 225, 225, 225, 225, 225, 225, 225, 225, 225, 225, 225, 225, 225, 225, 225]"
  by (simp add: fromBase64_def atob_def js_def is_ascii_whitespace_def strip_padding_def
      b64_val_def Let_def)

lemma fromBase64_flipped:
  "fromBase64 (js ''AAECAwQFBgcICQoLWktZVeHh4eHh4eHh4eHh4eHh4eE='') =
   Inr [0, 1, 2, 3, 4, 5, 6, 7, 8, 9, 10, 11, 90, 75, 89, 85,
      225, 225, 225, 225, 225, 225, 225, 225, 225, 225, 225, 225, 225, 225, 225, 225]"
  by (simp add: fromBase64_def atob_def js_def is_ascii_whitespace_def strip_padding_def
      b64_val_def Let_def)

lemma unseal_flipped:
  "unseal xor_gcm (key_raw example_key) [0, 1, 2, 3, 4, 5, 6, 7, 8, 9, 10, 11]
     [90, 75, 89, 85, 225, 225, 225, 225, 225, 225, 225, 225, 225, 225, 225, 225, 225, 225, 225, 225]
     = None"
  by (simp add: xor_gcm_def xor_unseal_def xor_tag_def xor_pad_def example_key_def Let_def)

lemma flip_pass:
  "flip_bit_at 42 1 (js ''AAECAwQFBgcICQoLWktZWeHh4eHh4eHh4eHh4eHh4eE='')
     = js ''AAECAwQFBgcICQoLWktZWeHh4eHh4eHh4eHh4eHh4eG=''"
  by (simp add: flip_bit_at_def js_def flip_bit_eq_xor)

lemma fromBase64_error: "fromBase64 w = Inl e \<Longrightarrow> e = InvalidCharacterError"
  by (auto simp: fromBase64_def atob_def Let_def split: sum.splits if_splits option.splits)

lemmas wire_eval = encrypt_wire eval_defs upt_rec b64_char_def

lemmas text_eval = TextDecoder_TextEncoder strip_bom_def from_scalar_def is_surrogate_def
  is_lead_def is_trail_def js_def

text \<open>
  C1, as the code has it. For every key, every random source and every plaintext that
  is well formed and does not begin with U+FEFF, \<open>encrypt\<close> returns a wire string and
  \<open>decrypt\<close> of that string under the same key returns the plaintext.
  \<open>encryptData\<close> and \<open>decryptData\<close> do the same when nonce, ciphertext and tag
  together are no more bytes than the engine accepts as the arguments of one call.
  The hypothesis on the cipher is that AES-GCM decrypts what it encrypted.
\<close>

theorem encrypt_decrypt_round_trip:
  assumes "gcm_correct gcm" and "isWellFormed P" and "\<not> prefix [0xFEFF] P"
  shows "(\<exists>w. fst (encrypt gcm K P r) = Inr w \<and> decrypt gcm K w = Inr P)
       \<and> (length (wire_bytes gcm K P r) \<le> max_args \<longrightarrow>
            (\<exists>w. fst (encryptData gcm max_args P K r) = Inr w \<and> decryptData gcm w K = Inr P))"
  using decrypt_encrypt_text[OF assms(1), of K P r] text_round_trip[OF assms(2,3)]
  by (simp add: encryptData_result encrypt_wire decryptData_eq_decrypt)

theorem encrypt_decrypt_round_trip_witness:
  "gcm_correct xor_gcm \<and> isWellFormed (js ''s3cret'') \<and> \<not> prefix [0xFEFF] (js ''s3cret'')
   \<and> fst (encrypt xor_gcm example_key (js ''s3cret'') counting_rng) = Inr (js ''AAECAwQFBgcICQoLWRlJWE9efn5+fn5+fn5+fn5+fn5+fg=='')
   \<and> decrypt xor_gcm example_key (js ''AAECAwQFBgcICQoLWRlJWE9efn5+fn5+fn5+fn5+fn5+fg=='') = Inr (js ''s3cret'')
   \<and> length (wire_bytes xor_gcm example_key (js ''s3cret'') counting_rng) \<le> 65536
   \<and> fst (encryptData xor_gcm 65536 (js ''s3cret'') example_key counting_rng) = Inr (js ''AAECAwQFBgcICQoLWRlJWE9efn5+fn5+fn5+fn5+fn5+fg=='')
   \<and> decryptData xor_gcm (js ''AAECAwQFBgcICQoLWRlJWE9efn5+fn5+fn5+fn5+fn5+fg=='') example_key = Inr (js ''s3cret'')"
proof -
  have wf: "isWellFormed (js ''s3cret'')" and nb: "\<not> prefix [0xFEFF] (js ''s3cret'')"
    by (simp_all add: js_def is_surrogate_def is_lead_def is_trail_def)
  have w: "fst (encrypt xor_gcm example_key (js ''s3cret'') counting_rng) = Inr (js ''AAECAwQFBgcICQoLWRlJWE9efn5+fn5+fn5+fn5+fn5+fg=='')"
    by (simp add: wire_eval)
  have l: "length (wire_bytes xor_gcm example_key (js ''s3cret'') counting_rng) \<le> 65536"
    unfolding length_wire_bytes_xor by (simp add: TextEncoder_encode_def utf8_encode_cp_def js_def
        is_surrogate_def is_lead_def is_trail_def)
  have c: "fst (encryptData xor_gcm 65536 (js ''s3cret'') example_key counting_rng) = Inr (js ''AAECAwQFBgcICQoLWRlJWE9efn5+fn5+fn5+fn5+fn5+fg=='')"
    using l w by (simp add: encryptData_result encrypt_wire)
  from encrypt_decrypt_round_trip[OF xor_gcm_correct wf nb, of example_key counting_rng 65536] w l c
  show ?thesis
    using xor_gcm_correct wf nb by auto
qed

text \<open>
  C1 as stated, for every plaintext string, fails. \<open>new TextDecoder()\<close> leaves a
  leading U+FEFF out of its output, so the plaintext U+FEFF U+0041 comes back as
  U+0041 alone; \<open>TextEncoder\<close> encodes a surrogate without its partner as U+FFFD, so
  the plaintext U+D800 comes back as U+FFFD. And for a plaintext of 65536 letters
  \<open>a\<close>, in an engine that accepts 65536 arguments, \<open>encryptData\<close> throws a
  \<open>RangeError\<close> where \<open>encrypt\<close> returns a wire string.
\<close>

theorem encrypt_decrypt_not_restored:
  "fst (encrypt xor_gcm example_key [0xFEFF, 0x41] counting_rng) = Inr (js ''AAECAwQFBgcICQoLxZGVa9TU1NTU1NTU1NTU1NTU1NQ='')
   \<and> decrypt xor_gcm example_key (js ''AAECAwQFBgcICQoLxZGVa9TU1NTU1NTU1NTU1NTU1NQ='') = Inr [0x41]
   \<and> fst (encrypt xor_gcm example_key [0xD800] counting_rng) = Inr (js ''AAECAwQFBgcICQoLxZWXlZWVlZWVlZWVlZWVlZWVlQ=='')
   \<and> decrypt xor_gcm example_key (js ''AAECAwQFBgcICQoLxZWXlZWVlZWVlZWVlZWVlZWVlQ=='') = Inr [0xFFFD]
   \<and> fst (encryptData xor_gcm 65536 (replicate 65536 0x61) example_key counting_rng) = Inl RangeError"
proof -
  have w1: "fst (encrypt xor_gcm example_key [0xFEFF, 0x41] counting_rng) = Inr (js ''AAECAwQFBgcICQoLxZGVa9TU1NTU1NTU1NTU1NTU1NQ='')"
    by (simp add: wire_eval)
  have w2: "fst (encrypt xor_gcm example_key [0xD800] counting_rng) = Inr (js ''AAECAwQFBgcICQoLxZWXlZWVlZWVlZWVlZWVlZWVlQ=='')"
    by (simp add: wire_eval)
  have t1: "TextDecoder_decode (TextEncoder_encode [0xFEFF, 0x41]) = [0x41]"
    by (simp add: text_eval)
  have t2: "TextDecoder_decode (TextEncoder_encode [0xD800]) = [0xFFFD]"
    by (simp add: text_eval)
  have "length (replicate 65536 (0x61 :: jschar)) = 65536"
    by (simp only: length_replicate)
  then have "65536 \<le> length (TextEncoder_encode (replicate 65536 0x61))"
    using length_TextEncoder_encode[of "replicate 65536 0x61"] by (simp only:)
  then have "\<not> length (wire_bytes xor_gcm example_key (replicate 65536 0x61) counting_rng) \<le> 65536"
    unfolding length_wire_bytes_xor by linarith
  then have l: "fst (encryptData xor_gcm 65536 (replicate 65536 0x61) example_key counting_rng)
      = Inl RangeError"
    by (simp only: encryptData_result fst_conv if_False)
  from decrypt_encrypt_text[OF xor_gcm_correct, of example_key "[0xFEFF, 0x41]" counting_rng]
    decrypt_encrypt_text[OF xor_gcm_correct, of example_key "[0xD800]" counting_rng]
  have "decrypt xor_gcm example_key (js ''AAECAwQFBgcICQoLxZGVa9TU1NTU1NTU1NTU1NTU1NQ='') = Inr [0x41]"
    and "decrypt xor_gcm example_key (js ''AAECAwQFBgcICQoLxZWXlZWVlZWVlZWVlZWVlZWVlQ=='') = Inr [0xFFFD]"
    by (auto simp: w1 w2 t1 t2)
  with w1 w2 l show ?thesis by (intro conjI)
qed

text \<open>
  C4, as the code has it. Let \<open>w\<close> be the wire string of \<open>P\<close> under \<open>K\<close>, and flip one
  bit of it. When the result is not base64, \<open>decrypt\<close> throws
  \<open>InvalidCharacterError\<close>; when it decodes to the bytes that were encoded,
  \<open>decrypt\<close> returns \<open>P\<close>; when it decodes to other bytes, \<open>decrypt\<close> throws
  \<open>OperationError\<close>. So \<open>decrypt\<close> returns \<open>P\<close> or throws, and never returns another
  plaintext. \<open>decryptData\<close> does the same. The hypotheses on the cipher are that
  AES-GCM decrypts what it encrypted, and that it rejects the bytes of the changed string
  when they are not the bytes it produced.
\<close>

theorem decrypt_tampered:
  assumes "gcm_correct gcm" and "isWellFormed P" and "\<not> prefix [0xFEFF] P"
    and "fst (encrypt gcm K P r) = Inr w"
    and "rejects_other gcm K (wire_bytes gcm K P r) (flip_bit_at i j w)"
  shows "decrypt gcm K (flip_bit_at i j w) =
           (case fromBase64 (flip_bit_at i j w) of
              Inl e \<Rightarrow> Inl InvalidCharacterError
            | Inr bs \<Rightarrow> if bs = wire_bytes gcm K P r then Inr P else Inl OperationError)
         \<and> decryptData gcm (flip_bit_at i j w) K = decrypt gcm K (flip_bit_at i j w)"
proof (cases "fromBase64 (flip_bit_at i j w)")
  case (Inl e)
  then show ?thesis
    using fromBase64_error[OF Inl] by (simp add: decrypt_def decryptData_eq_decrypt)
next
  case (Inr bs)
  show ?thesis
  proof (cases "bs = wire_bytes gcm K P r")
    case True
    with Inr show ?thesis
      using decrypt_of_bytes[of "flip_bit_at i j w" gcm K P r] assms(1) text_round_trip[OF assms(2,3)]
      by (simp add: decryptData_eq_decrypt)
  next
    case False
    with Inr assms(5) have "unseal gcm (key_raw K) (take 12 bs) (drop 12 bs) = None"
      by (simp add: rejects_other_def AES_GCM_NONCE_BYTES_def)
    with Inr False show ?thesis
      by (simp add: decrypt_def subtle_decrypt_def Let_def AES_GCM_NONCE_BYTES_def
          decryptData_eq_decrypt)
  qed
qed

theorem decrypt_tampered_witness:
  "gcm_correct xor_gcm \<and> isWellFormed (js ''pass'') \<and> \<not> prefix [0xFEFF] (js ''pass'')
   \<and> fst (encrypt xor_gcm example_key (js ''pass'') counting_rng) = Inr (js ''AAECAwQFBgcICQoLWktZWeHh4eHh4eHh4eHh4eHh4eE='')
   \<and> flip_bit_at 20 0 (js ''AAECAwQFBgcICQoLWktZWeHh4eHh4eHh4eHh4eHh4eE='') = js ''AAECAwQFBgcICQoLWktZVeHh4eHh4eHh4eHh4eHh4eE=''
   \<and> rejects_other xor_gcm example_key (wire_bytes xor_gcm example_key (js ''pass'') counting_rng)
        (js ''AAECAwQFBgcICQoLWktZVeHh4eHh4eHh4eHh4eHh4eE='')
   \<and> decrypt xor_gcm example_key (js ''AAECAwQFBgcICQoLWktZVeHh4eHh4eHh4eHh4eHh4eE='') = Inl OperationError
   \<and> decryptData xor_gcm (js ''AAECAwQFBgcICQoLWktZVeHh4eHh4eHh4eHh4eHh4eE='') example_key = Inl OperationError"
proof -
  have wf: "isWellFormed (js ''pass'')" and nb: "\<not> prefix [0xFEFF] (js ''pass'')"
    by (simp_all add: js_def is_surrogate_def is_lead_def is_trail_def)
  have w: "fst (encrypt xor_gcm example_key (js ''pass'') counting_rng) = Inr (js ''AAECAwQFBgcICQoLWktZWeHh4eHh4eHh4eHh4eHh4eE='')"
    by (simp add: wire_eval)
  have f: "flip_bit_at 20 0 (js ''AAECAwQFBgcICQoLWktZWeHh4eHh4eHh4eHh4eHh4eE='') = js ''AAECAwQFBgcICQoLWktZVeHh4eHh4eHh4eHh4eHh4eE=''"
    by (simp add: flip_bit_at_def js_def flip_bit_eq_xor)
  have ro: "rejects_other xor_gcm example_key (wire_bytes xor_gcm example_key (js ''pass'') counting_rng)
        (js ''AAECAwQFBgcICQoLWktZVeHh4eHh4eHh4eHh4eHh4eE='')"
    by (simp add: rejects_other_def fromBase64_flipped unseal_flipped AES_GCM_NONCE_BYTES_def)
  have ro': "rejects_other xor_gcm example_key (wire_bytes xor_gcm example_key (js ''pass'') counting_rng)
        (flip_bit_at 20 0 (js ''AAECAwQFBgcICQoLWktZWeHh4eHh4eHh4eHh4eHh4eE=''))"
    unfolding f by (rule ro)
  from decrypt_tampered[OF xor_gcm_correct wf nb w ro']
  have "decrypt xor_gcm example_key (js ''AAECAwQFBgcICQoLWktZVeHh4eHh4eHh4eHh4eHh4eE='') = Inl OperationError"
    and "decryptData xor_gcm (js ''AAECAwQFBgcICQoLWktZVeHh4eHh4eHh4eHh4eHh4eE='') example_key = Inl OperationError"
    unfolding f by (simp_all add: fromBase64_flipped wire_bytes_pass)
  with xor_gcm_correct wf nb w f ro show ?thesis by (intro conjI)
qed

text \<open>
  C4 as stated, that every single flipped bit makes \<open>decrypt\<close> fail, does not hold.
  The wire string of \<open>pass\<close> is 32 bytes in 43 characters and one \<open>=\<close>; the last
  character before the \<open>=\<close> carries four bits of data and two that \<open>atob\<close> discards.
  Flipping bit 1 of that character turns \<open>E\<close> into \<open>G\<close>, the string decodes to
  the same bytes, and \<open>decrypt\<close> returns the plaintext with no error. The cipher has
  rejected nothing that it should have accepted: the bytes are the ones it produced.
\<close>

theorem tampered_wire_accepted:
  "fst (encrypt xor_gcm example_key (js ''pass'') counting_rng) = Inr (js ''AAECAwQFBgcICQoLWktZWeHh4eHh4eHh4eHh4eHh4eE='')
   \<and> flip_bit_at 42 1 (js ''AAECAwQFBgcICQoLWktZWeHh4eHh4eHh4eHh4eHh4eE='') = js ''AAECAwQFBgcICQoLWktZWeHh4eHh4eHh4eHh4eHh4eG=''
   \<and> fromBase64 (js ''AAECAwQFBgcICQoLWktZWeHh4eHh4eHh4eHh4eHh4eG='')
       = Inr (wire_bytes xor_gcm example_key (js ''pass'') counting_rng)
   \<and> decrypt xor_gcm example_key (js ''AAECAwQFBgcICQoLWktZWeHh4eHh4eHh4eHh4eHh4eG='') = Inr (js ''pass'')"
proof -
  have w: "fst (encrypt xor_gcm example_key (js ''pass'') counting_rng) = Inr (js ''AAECAwQFBgcICQoLWktZWeHh4eHh4eHh4eHh4eHh4eE='')"
    by (simp add: wire_eval)
  have t: "TextDecoder_decode (TextEncoder_encode (js ''pass'')) = js ''pass''"
    by (rule text_round_trip) (simp_all add: js_def is_surrogate_def is_lead_def is_trail_def)
  have b: "fromBase64 (js ''AAECAwQFBgcICQoLWktZWeHh4eHh4eHh4eHh4eHh4eG='')
       = Inr (wire_bytes xor_gcm example_key (js ''pass'') counting_rng)"
    by (simp only: atob_tampered wire_bytes_pass)
  have d: "decrypt xor_gcm example_key (js ''AAECAwQFBgcICQoLWktZWeHh4eHh4eHh4eHh4eHh4eG='') = Inr (js ''pass'')"
    using decrypt_of_bytes[OF b xor_gcm_correct] by (simp only: t)
  from w flip_pass b d show ?thesis by (intro conjI)
qed

section \<open>The record codec: \<open>encryptObject\<close> and \<open>decryptObject\<close>\<close>

subsection \<open>Properties of an object\<close>





lemma set_create_property: "set (create_property k v al) = insert (k, v) (set al)"
  by (induction al) (auto split: option.splits if_splits)

lemma map_of_create_property:
  "k \<notin> fst ` set al \<Longrightarrow> map_of (create_property k v al) = (map_of al)(k \<mapsto> v)"
proof (induction al)
  case Nil
  show ?case by simp
next
  case (Cons e al)
  obtain k' v' where e: "e = (k', v')" by (cases e)
  from Cons.prems have n: "k \<noteq> k'" and r: "k \<notin> fst ` set al"
    unfolding e by auto
  show ?case unfolding e using n
    by (auto simp: Cons.IH[OF r] fun_eq_iff split: option.splits)
qed

lemma map_of_set_property: "map_of (set_property k v al) = (map_of al)(k \<mapsto> v)"
  by (simp add: set_property_def update_conv' map_of_create_property)

lemma keys_set_property: "fst ` set (set_property k v al) = insert k (fst ` set al)"
  by (simp add: set_property_def dom_update set_create_property insert_absorb)

lemma set_update_origin:
  "(x, y) \<in> set (AList.update k v al) \<Longrightarrow> (x, y) = (k, v) \<or> (x, y) \<in> set al"
  by (induction al) (auto split: if_splits)

lemma entries_set_property:
  "(x, y) \<in> set (set_property k v al) \<Longrightarrow> (x, y) = (k, v) \<or> (x, y) \<in> set al"
  using set_update_origin[of x y k v al]
  by (simp add: set_property_def set_create_property split: if_splits)

subsection \<open>Assignments to \<open>decrypted\<close>\<close>

lemma assign_all_Nil: "assign_all [] ob = ob"
  by (simp add: assign_all_def)

lemma assign_all_Cons: "assign_all (w # ws) ob = assign_all ws (js_assign (fst w) (snd w) ob)"
  by (simp add: assign_all_def)

lemma map_of_js_assign:
  "x \<noteq> js ''__proto__'' \<Longrightarrow>
   map_of (own (js_assign k v ob)) x = ((map_of (own ob))(k \<mapsto> v)) x"
  by (simp add: js_assign_def map_of_set_property)

lemma map_of_assign_all:
  "x \<noteq> js ''__proto__'' \<Longrightarrow>
   map_of (own (assign_all ws ob)) x = (map_of (own ob) ++ map_of (rev ws)) x"
proof (induction ws arbitrary: ob)
  case Nil
  show ?case by (simp add: assign_all_Nil)
next
  case (Cons w ws)
  have "map_of (own (assign_all (w # ws) ob)) x
          = (map_of (own (js_assign (fst w) (snd w) ob)) ++ map_of (rev ws)) x"
    unfolding assign_all_Cons by (rule Cons.IH[OF Cons.prems])
  also have "\<dots> = (map_of (own ob) ++ map_of (rev (w # ws))) x"
    using map_of_js_assign[OF Cons.prems, of "fst w" "snd w" ob]
    by (cases w) (simp add: map_add_def split: option.splits)
  finally show ?case .
qed

lemma entries_js_assign:
  "(x, y) \<in> set (own (js_assign k v ob)) \<Longrightarrow> (x, y) = (k, v) \<or> (x, y) \<in> set (own ob)"
  using entries_set_property[of x y k v "own ob"]
  by (simp add: js_assign_def split: if_splits)

lemma entries_assign_all:
  "(x, y) \<in> set (own (assign_all ws ob)) \<Longrightarrow> (x, y) \<in> set ws \<or> (x, y) \<in> set (own ob)"
proof (induction ws arbitrary: ob)
  case Nil
  then show ?case by (simp add: assign_all_Nil)
next
  case (Cons w ws)
  from Cons.prems have "(x, y) \<in> set ws \<or> (x, y) \<in> set (own (js_assign (fst w) (snd w) ob))"
    unfolding assign_all_Cons by (rule Cons.IH)
  then show ?case
    using entries_js_assign[of x y "fst w" "snd w" ob] by auto
qed

lemma keys_js_assign:
  "fst ` set (own (js_assign k v ob)) - {js ''__proto__''}
     = insert k (fst ` set (own ob)) - {js ''__proto__''}"
  by (auto simp: js_assign_def keys_set_property)

lemma keys_assign_all:
  "fst ` set (own (assign_all ws ob)) - {js ''__proto__''}
     = (fst ` set (own ob) \<union> fst ` set ws) - {js ''__proto__''}"
proof (induction ws arbitrary: ob)
  case Nil
  show ?case by (simp add: assign_all_Nil)
next
  case (Cons w ws)
  have "fst ` set (own (assign_all (w # ws) ob)) - {js ''__proto__''}
          = (fst ` set (own (js_assign (fst w) (snd w) ob)) \<union> fst ` set ws) - {js ''__proto__''}"
    unfolding assign_all_Cons by (rule Cons.IH)
  also have "\<dots> = (fst ` set (own (js_assign (fst w) (snd w) ob)) - {js ''__proto__''})
                    \<union> (fst ` set ws - {js ''__proto__''})"
    by (rule Un_Diff)
  also have "\<dots> = (insert (fst w) (fst ` set (own ob)) - {js ''__proto__''})
                    \<union> (fst ` set ws - {js ''__proto__''})"
    by (simp only: keys_js_assign)
  also have "\<dots> = (fst ` set (own ob) \<union> fst ` set (w # ws)) - {js ''__proto__''}"
    by auto
  finally show ?case .
qed

lemma no_proto_write:
  "js ''__proto__'' \<notin> fst ` set ws \<Longrightarrow> js ''__proto__'' \<notin> fst ` set (own ob) \<Longrightarrow>
   js ''__proto__'' \<notin> fst ` set (own (assign_all ws ob))"
proof (induction ws arbitrary: ob)
  case Nil
  then show ?case by (simp add: assign_all_Nil)
next
  case (Cons w ws)
  from Cons.prems(1) have w: "fst w \<noteq> js ''__proto__''" and ws: "js ''__proto__'' \<notin> fst ` set ws"
    by auto
  have "js ''__proto__'' \<notin> fst ` set (own (js_assign (fst w) (snd w) ob))"
    using w Cons.prems(2) by (simp add: js_assign_def keys_set_property)
  with ws show ?case unfolding assign_all_Cons by (rule Cons.IH)
qed

lemma one_proto_write:
  "length (filter (\<lambda>w. fst w = js ''__proto__'') ws) \<le> 1 \<Longrightarrow> has_prototype ob \<Longrightarrow>
   js ''__proto__'' \<notin> fst ` set (own ob) \<Longrightarrow>
   js ''__proto__'' \<notin> fst ` set (own (assign_all ws ob))"
proof (induction ws arbitrary: ob)
  case Nil
  then show ?case by (simp add: assign_all_Nil)
next
  case (Cons w ws)
  show ?case
  proof (cases "fst w = js ''__proto__''")
    case True
    with Cons.prems(1) have "filter (\<lambda>w. fst w = js ''__proto__'') ws = []"
      by simp
    then have ws: "js ''__proto__'' \<notin> fst ` set ws"
      by (force simp: filter_empty_conv)
    have "own (js_assign (fst w) (snd w) ob) = own ob"
      using True Cons.prems(2) by (simp add: js_assign_def)
    with Cons.prems(3) have "js ''__proto__'' \<notin> fst ` set (own (js_assign (fst w) (snd w) ob))"
      by simp
    with ws show ?thesis unfolding assign_all_Cons by (rule no_proto_write)
  next
    case False
    with Cons.prems(1) have l: "length (filter (\<lambda>w. fst w = js ''__proto__'') ws) \<le> 1"
      by simp
    have h: "has_prototype (js_assign (fst w) (snd w) ob)"
      using False Cons.prems(2) by (simp add: js_assign_def)
    have "js ''__proto__'' \<notin> fst ` set (own (js_assign (fst w) (snd w) ob))"
      using False Cons.prems(3) by (simp add: js_assign_def keys_set_property)
    with l h show ?thesis unfolding assign_all_Cons by (rule Cons.IH)
  qed
qed

lemma map_of_only_value:
  "(k, v) \<in> set ws \<Longrightarrow> (\<forall>v'. (k, v') \<in> set ws \<longrightarrow> v' = v) \<Longrightarrow> map_of ws k = Some v"
proof (induction ws)
  case Nil
  then show ?case by simp
next
  case (Cons e ws)
  obtain a b where e: "e = (a, b)" by (cases e)
  show ?case
  proof (cases "a = k")
    case True
    have "(k, b) \<in> set (e # ws)" using True e by simp
    with Cons.prems(2) have "b = v" by blast
    with True e show ?thesis by simp
  next
    case False
    have "(k, v) \<in> set ws" using Cons.prems(1) False e by auto
    moreover have "\<forall>v'. (k, v') \<in> set ws \<longrightarrow> v' = v" using Cons.prems(2) by auto
    ultimately have "map_of ws k = Some v" by (rule Cons.IH)
    with False e show ?thesis by simp
  qed
qed

lemma assign_all_only_value:
  assumes "(k, v) \<in> set ws" and "\<forall>v'. (k, v') \<in> set ws \<longrightarrow> v' = v"
    and "k \<noteq> js ''__proto__''"
  shows "map_of (own (assign_all ws ob)) k = Some v"
proof -
  have "(k, v) \<in> set (rev ws)"
    unfolding set_rev by (rule assms(1))
  moreover have "\<forall>v'. (k, v') \<in> set (rev ws) \<longrightarrow> v' = v"
    unfolding set_rev by (rule assms(2))
  ultimately have "map_of (rev ws) k = Some v"
    by (rule map_of_only_value)
  then show ?thesis by (simp add: map_of_assign_all[OF assms(3)])
qed

subsection \<open>The names that \<open>decryptObject\<close> writes\<close>

lemma passthrough_not_encrypted: "k \<in> set passthrough_keys \<Longrightarrow> \<not> endsWith_encrypted k"
  by (auto simp: passthrough_keys_def endsWith_encrypted_def js_def suffix_to_prefix)

lemma passthrough_not_proto: "k \<in> set passthrough_keys \<Longrightarrow> k \<noteq> js ''__proto__''"
  by (auto simp: passthrough_keys_def js_def)

lemma remove_first_suffix:
  "suffix p k \<Longrightarrow> p \<noteq> [] \<Longrightarrow>
   k = remove_first p k @ p \<or> (remove_first p k \<noteq> [] \<and> last (remove_first p k) = last p)"
proof (induction k)
  case Nil
  then show ?case by simp
next
  case (Cons c cs)
  show ?case
  proof (cases "prefix p (c # cs)")
    case True
    then have rf: "remove_first p (c # cs) = drop (length p) (c # cs)" by simp
    from Cons.prems(1) obtain a where a: "c # cs = a @ p" by (auto simp: suffix_def)
    show ?thesis
    proof (cases "a = []")
      case True
      with a have "c # cs = drop (length p) (c # cs) @ p" by simp
      then show ?thesis unfolding rf by (rule disjI1)
    next
      case False
      with a have l: "length p < length (c # cs)"
        by (metis length_append length_greater_0_conv less_add_same_cancel2)
      then have "drop (length p) (c # cs) \<noteq> []" by simp
      moreover have "last (drop (length p) (c # cs)) = last (c # cs)"
        using l by (rule last_drop)
      moreover have "last (c # cs) = last p"
        unfolding a using Cons.prems(2) by simp
      ultimately show ?thesis unfolding rf by simp
    qed
  next
    case False
    with Cons.prems(1) have s: "suffix p cs" by (auto simp: suffix_Cons)
    from Cons.IH[OF s Cons.prems(2)] False show ?thesis by auto
  qed
qed

lemma originalKey_proto:
  assumes "endsWith_encrypted k" and "originalKey k = js ''__proto__''"
  shows "k = js ''__proto___encrypted''"
proof -
  have "js ''_encrypted'' \<noteq> []" by (simp add: js_def)
  with assms(1) have "k = originalKey k @ js ''_encrypted''
      \<or> (originalKey k \<noteq> [] \<and> last (originalKey k) = last (js ''_encrypted''))"
    unfolding endsWith_encrypted_def originalKey_def by (rule remove_first_suffix)
  moreover have "last (js ''__proto__'') \<noteq> last (js ''_encrypted'')"
    by (simp add: js_def)
  ultimately have "k = js ''__proto__'' @ js ''_encrypted''"
    unfolding assms(2) by blast
  then show ?thesis by (simp add: js_def)
qed

lemma write_names:
  "fst ` set (immediate_writes obj) \<union> fst ` set (pending obj)
     = bare_names obj \<union> (set passthrough_keys \<inter> fst ` set obj)"
proof (induction obj)
  case Nil
  show ?case by (simp add: bare_names_def)
next
  case (Cons e obj)
  obtain k v where e: "e = (k, v)" by (cases e)
  have b: "bare_names ((k, v) # obj) =
             (if endsWith_encrypted k then insert (originalKey k) (bare_names obj) else bare_names obj)"
    by (auto simp: bare_names_def)
  show ?case
    using Cons.IH passthrough_not_encrypted[of k] unfolding e b
    by (cases v) auto
qed

lemma fst_settle: "fst (settle gcm key p) = fst p"
  by (simp add: settle_def split: sum.splits)

lemma snd_settle: "snd (settle gcm key (n, w)) = field_value gcm key (Str w)" if "w \<noteq> []"
  using that by (simp add: settle_def field_value_def split: sum.splits)

lemma settling_order_mset:
  assumes "settling_order obj settled"
  shows "mset settled = mset (pending obj)"
proof -
  let ?n = "length (filter rejects_at_once (pending obj))"
  from assms have t: "take ?n settled = filter rejects_at_once (pending obj)"
    and d: "mset (drop ?n settled) = mset (filter (\<lambda>p. \<not> rejects_at_once p) (pending obj))"
    by (simp_all add: settling_order_def Let_def)
  have "mset settled = mset (take ?n settled) + mset (drop ?n settled)"
    by (metis append_take_drop_id mset_append)
  also have "\<dots> = mset (filter rejects_at_once (pending obj))
                   + mset (filter (\<lambda>p. \<not> rejects_at_once p) (pending obj))"
    by (simp only: t d)
  also have "\<dots> = mset (pending obj)"
    by (simp only: mset_filter multiset_partition[symmetric])
  finally show ?thesis .
qed

lemma fifo_settling:
  "settling_order obj (filter rejects_at_once (pending obj)
                       @ filter (\<lambda>p. \<not> rejects_at_once p) (pending obj))"
  by (simp add: settling_order_def Let_def)

lemma settling_order_set: "settling_order obj settled \<Longrightarrow> set settled = set (pending obj)"
  by (drule settling_order_mset) (rule mset_eq_setD)

lemma settling_order_keys:
  "settling_order obj settled \<Longrightarrow> mset (map fst settled) = mset (map fst (pending obj))"
  by (drule settling_order_mset, drule arg_cong[where f = "image_mset fst"]) simp

lemma settling_order_count:
  assumes "settling_order obj settled"
  shows "length (filter Q settled) = length (filter Q (pending obj))"
proof -
  have "mset (filter Q settled) = mset (filter Q (pending obj))"
    by (simp only: mset_filter settling_order_mset[OF assms])
  then have "size (mset (filter Q settled)) = size (mset (filter Q (pending obj)))"
    by (rule arg_cong)
  then show ?thesis by (simp only: size_mset)
qed

lemma immediate_writes_passthrough:
  "(k, v) \<in> set obj \<Longrightarrow> k \<in> set passthrough_keys \<Longrightarrow> \<not> endsWith_encrypted k \<Longrightarrow>
   (k, v) \<in> set (immediate_writes obj)"
  by (induction obj) (auto split: jsvalue.splits)

lemma immediate_writes_origin:
  "(n, x) \<in> set (immediate_writes obj) \<Longrightarrow>
   (n \<in> bare_names obj \<and> x = Null) \<or> (n \<in> set passthrough_keys \<and> (n, x) \<in> set obj)"
proof (induction obj)
  case Nil
  then show ?case by simp
next
  case (Cons e obj)
  obtain k v where e: "e = (k, v)" by (cases e)
  have b: "bare_names obj \<subseteq> bare_names ((k, v) # obj)"
    "endsWith_encrypted k \<Longrightarrow> originalKey k \<in> bare_names ((k, v) # obj)"
    by (auto simp: bare_names_def)
  from Cons show ?case unfolding e using b
    by (cases v) (auto split: if_splits)
qed

lemma pending_origin: "(n, w) \<in> set (pending obj) \<Longrightarrow> n \<in> bare_names obj"
proof (induction obj)
  case Nil
  then show ?case by simp
next
  case (Cons e obj)
  obtain k v where e: "e = (k, v)" by (cases e)
  have b: "bare_names obj \<subseteq> bare_names ((k, v) # obj)"
    "endsWith_encrypted k \<Longrightarrow> originalKey k \<in> bare_names ((k, v) # obj)"
    by (auto simp: bare_names_def)
  from Cons show ?case unfolding e using b
    by (cases v) (auto split: if_splits)
qed

lemma pending_member:
  "(k, Str w) \<in> set obj \<Longrightarrow> endsWith_encrypted k \<Longrightarrow> w \<noteq> [] \<Longrightarrow>
   (originalKey k, w) \<in> set (pending obj)"
  by (induction obj) (auto split: jsvalue.splits)


lemma field_value_Null: "\<not> (\<exists>s. v = Str s \<and> s \<noteq> []) \<Longrightarrow> field_value gcm key v = Null"
  by (cases v) (auto simp: field_value_def)

lemma immediate_writes_Cons:
  "immediate_writes ((k, v) # rest) =
     (if endsWith_encrypted k then
        (if \<exists>s. v = Str s \<and> s \<noteq> [] then immediate_writes rest
         else (originalKey k, Null) # immediate_writes rest)
      else if k \<in> set passthrough_keys then (k, v) # immediate_writes rest
      else immediate_writes rest)"
  by (cases v) auto

lemma immediate_writes_source:
  "(n, x) \<in> set (immediate_writes obj) \<Longrightarrow>
   (\<exists>k v. (k, v) \<in> set obj \<and> endsWith_encrypted k \<and> n = originalKey k \<and> x = Null
           \<and> field_value gcm key v = Null)
   \<or> ((n, x) \<in> set obj \<and> n \<in> set passthrough_keys \<and> \<not> endsWith_encrypted n)"
proof (induction obj)
  case Nil
  then show ?case by simp
next
  case (Cons e obj)
  obtain k v where e: "e = (k, v)" by (cases e)
  from Cons.prems consider
      (enc) "endsWith_encrypted k" "\<not> (\<exists>s. v = Str s \<and> s \<noteq> [])" "n = originalKey k" "x = Null"
    | (pass) "\<not> endsWith_encrypted k" "k \<in> set passthrough_keys" "n = k" "x = v"
    | (rest) "(n, x) \<in> set (immediate_writes obj)"
    unfolding e immediate_writes_Cons by (auto split: if_splits)
  then show ?case
  proof cases
    case enc
    have "field_value gcm key v = Null" using enc(2) by (rule field_value_Null)
    with enc have "(k, v) \<in> set (e # obj) \<and> endsWith_encrypted k \<and> n = originalKey k \<and> x = Null
           \<and> field_value gcm key v = Null"
      unfolding e by simp
    then show ?thesis by blast
  next
    case pass
    then have "(n, x) \<in> set (e # obj) \<and> n \<in> set passthrough_keys \<and> \<not> endsWith_encrypted n"
      unfolding e by simp
    then show ?thesis by (rule disjI2)
  next
    case rest
    from Cons.IH[OF rest] show ?thesis by auto
  qed
qed

lemma pending_source:
  "(n, s) \<in> set (pending w) \<Longrightarrow>
   \<exists>k. (k, Str s) \<in> set w \<and> endsWith_encrypted k \<and> n = originalKey k \<and> s \<noteq> []"
proof (induction w)
  case Nil
  then show ?case by simp
next
  case (Cons e w)
  obtain k v where e: "e = (k, v)" by (cases e)
  from Cons show ?case unfolding e
    by (cases v) (auto split: if_splits)
qed

lemma no_proto_key:
  assumes "js ''__proto___encrypted'' \<notin> fst ` set obj"
  shows "js ''__proto__'' \<notin> fst ` set (immediate_writes obj)"
    and "js ''__proto__'' \<notin> fst ` set (pending obj)"
proof -
  show "js ''__proto__'' \<notin> fst ` set (immediate_writes obj)"
  proof
    assume "js ''__proto__'' \<in> fst ` set (immediate_writes obj)"
    then obtain x where "(js ''__proto__'', x) \<in> set (immediate_writes obj)" by auto
    then consider k v where "(k, v) \<in> set obj" "endsWith_encrypted k" "js ''__proto__'' = originalKey k"
      | "js ''__proto__'' \<in> set passthrough_keys"
      using immediate_writes_source[of "js ''__proto__''" x obj] by blast
    then show False
    proof cases
      case 1
      then have "k = js ''__proto___encrypted''" using originalKey_proto[of k] by simp
      with 1(1) assms show False by force
    next
      case 2
      then show False using passthrough_not_proto by blast
    qed
  qed
  show "js ''__proto__'' \<notin> fst ` set (pending obj)"
  proof
    assume "js ''__proto__'' \<in> fst ` set (pending obj)"
    then obtain s where "(js ''__proto__'', s) \<in> set (pending obj)" by auto
    then obtain k where k: "(k, Str s) \<in> set obj" "endsWith_encrypted k" "js ''__proto__'' = originalKey k"
      using pending_source by blast
    then have "k = js ''__proto___encrypted''" using originalKey_proto[of k] by simp
    with k(1) assms show False by force
  qed
qed

text \<open>
  Only the key \<open>__proto___encrypted\<close> is written to \<open>__proto__\<close>. An input has it once
  at most, so the one assignment meets the setter, and the result of \<open>decryptObject\<close>
  never has an own property \<open>__proto__\<close>.
\<close>

lemma proto_writes:
  "distinct (map fst obj) \<Longrightarrow>
   length (filter (\<lambda>w. fst w = js ''__proto__'') (immediate_writes obj))
   + length (filter (\<lambda>p. fst p = js ''__proto__'') (pending obj)) \<le> 1"
proof (induction obj)
  case Nil
  show ?case by simp
next
  case (Cons e obj)
  obtain k v where e: "e = (k, v)" by (cases e)
  from Cons.prems have d: "k \<notin> fst ` set obj" "distinct (map fst obj)"
    unfolding e by simp_all
  show ?case
  proof (cases "k = js ''__proto___encrypted''")
    case True
    with d(1) have "js ''__proto___encrypted'' \<notin> fst ` set obj" by simp
    then have "js ''__proto__'' \<notin> fst ` set (immediate_writes obj)"
      and "js ''__proto__'' \<notin> fst ` set (pending obj)"
      by (rule no_proto_key)+
    then have "filter (\<lambda>w. fst w = js ''__proto__'') (immediate_writes obj) = []"
      and "filter (\<lambda>p. fst p = js ''__proto__'') (pending obj) = []"
      by (force simp: filter_empty_conv)+
    then show ?thesis unfolding e
      by (cases v) (simp_all split: if_splits)
  next
    case False
    have n: "endsWith_encrypted k \<Longrightarrow> originalKey k \<noteq> js ''__proto__''"
      using False originalKey_proto[of k] by blast
    have p: "k \<in> set passthrough_keys \<Longrightarrow> k \<noteq> js ''__proto__''"
      by (rule passthrough_not_proto)
    from Cons.IH[OF d(2)] n p show ?thesis unfolding e
      by (cases v) (simp_all split: if_splits)
  qed
qed

lemma writes_distinct:
  assumes "settling_order obj settled" and "names_distinct obj"
  shows "distinct (map fst (immediate_writes obj @ map (settle gcm key) settled))"
proof -
  have c: "fst \<circ> settle gcm key = fst"
    by (rule ext) (simp add: fst_settle)
  have "mset (map fst (immediate_writes obj @ map (settle gcm key) settled))
      = mset (map fst (immediate_writes obj)) + mset (map fst settled)"
    by (simp add: c)
  then have "mset (map fst (immediate_writes obj @ map (settle gcm key) settled))
      = mset (map fst (immediate_writes obj) @ map fst (pending obj))"
    by (simp only: settling_order_keys[OF assms(1)] mset_append)
  then show ?thesis
    using assms(2) unfolding names_distinct_def by (metis mset_eq_imp_distinct_iff)
qed

lemma writes_to_proto:
  assumes "settling_order obj settled" and "distinct (map fst obj)"
  shows "length (filter (\<lambda>w. fst w = js ''__proto__'')
                   (immediate_writes obj @ map (settle gcm key) settled)) \<le> 1"
proof -
  have c: "(\<lambda>w. fst w = js ''__proto__'') \<circ> settle gcm key = (\<lambda>p. fst p = js ''__proto__'')"
    by (rule ext) (simp add: fst_settle)
  have "length (filter (\<lambda>w. fst w = js ''__proto__'') (map (settle gcm key) settled))
          = length (filter (\<lambda>p. fst p = js ''__proto__'') settled)"
    by (simp only: filter_map c length_map)
  also have "\<dots> = length (filter (\<lambda>p. fst p = js ''__proto__'') (pending obj))"
    using assms(1) by (rule settling_order_count)
  finally show ?thesis
    using proto_writes[OF assms(2)] by simp
qed

lemma decryptObject_no_proto:
  assumes "settling_order obj settled" and "distinct (map fst obj)"
  shows "js ''__proto__'' \<notin> fst ` set (decryptObject_settling gcm obj key settled)"
  unfolding decryptObject_settling_def
  using writes_to_proto[OF assms]
  by (rule one_proto_write) (simp_all add: empty_object_def)

subsection \<open>Evaluation\<close>

lemma decryptData_pass:
  "decryptData xor_gcm (js ''AAECAwQFBgcICQoLWktZWeHh4eHh4eHh4eHh4eHh4eE='') example_key = Inr (js ''pass'')"
proof -
  have t: "TextDecoder_decode (TextEncoder_encode (js ''pass'')) = js ''pass''"
    by (rule text_round_trip) (simp_all add: js_def is_surrogate_def is_lead_def is_trail_def)
  have "fromBase64 (js ''AAECAwQFBgcICQoLWktZWeHh4eHh4eHh4eHh4eHh4eE='') = Inr (wire_bytes xor_gcm example_key (js ''pass'') counting_rng)"
    using fromBase64_toBase64[of "wire_bytes xor_gcm example_key (js ''pass'') counting_rng"]
    by (simp only: wire_bytes_pass b64_pass)
  then show ?thesis
    using decrypt_of_bytes[of "js ''AAECAwQFBgcICQoLWktZWeHh4eHh4eHh4eHh4eHh4eE=''" xor_gcm example_key "js ''pass''" counting_rng]
      xor_gcm_correct
    by (simp add: decryptData_eq_decrypt t)
qed

lemma decryptData_flipped:
  "decryptData xor_gcm (js ''AAECAwQFBgcICQoLWktZVeHh4eHh4eHh4eHh4eHh4eE='') example_key = Inl OperationError"
  by (simp add: decryptData_eq_decrypt decrypt_def fromBase64_flipped subtle_decrypt_def
      unseal_flipped AES_GCM_NONCE_BYTES_def)

lemma decryptData_bad:
  "decryptData gcm (js ''!!!'') key = Inl InvalidCharacterError"
  by (simp add: decryptData_def atob_def js_def is_ascii_whitespace_def strip_padding_def
      b64_val_def Let_def)

lemma rejects_bad: "rejects_at_once (n, js ''!!!'')"
  by (simp add: rejects_at_once_def atob_def js_def is_ascii_whitespace_def strip_padding_def
      b64_val_def Let_def)

lemma accepts_base64: "fromBase64 w = Inr bs \<Longrightarrow> \<not> rejects_at_once (n, w)"
  by (simp add: rejects_at_once_def fromBase64_def split: sum.splits)

lemma accepts_pass: "\<not> rejects_at_once (n, js ''AAECAwQFBgcICQoLWktZWeHh4eHh4eHh4eHh4eHh4eE='')"
proof -
  have "fromBase64 (js ''AAECAwQFBgcICQoLWktZWeHh4eHh4eHh4eHh4eHh4eE='') = Inr (wire_bytes xor_gcm example_key (js ''pass'') counting_rng)"
    using fromBase64_toBase64[of "wire_bytes xor_gcm example_key (js ''pass'') counting_rng"]
    by (simp only: wire_bytes_pass b64_pass)
  then show ?thesis by (rule accepts_base64)
qed

lemma accepts_flipped: "\<not> rejects_at_once (n, js ''AAECAwQFBgcICQoLWktZVeHh4eHh4eHh4eHh4eHh4eE='')"
  using fromBase64_flipped by (rule accepts_base64)

lemmas property_eval = js_assign_def empty_object_def set_property_def array_index_def
  Number_of_def is_digit_def js_def

lemmas object_eval = decryptObject_def decryptObject_settling_def assign_all_def property_eval
  settle_def endsWith_encrypted_def originalKey_def passthrough_keys_def suffix_to_prefix

lemma pending_example:
  "pending example_record =
     [(js ''secret_name'', js ''AAECAwQFBgcICQoLWktZWeHh4eHh4eHh4eHh4eHh4eE=''), (js ''value'', js ''!!!'')]"
  by (simp add: example_record_def endsWith_encrypted_def originalKey_def js_def suffix_to_prefix)

lemma immediate_example:
  "immediate_writes example_record =
     [(js ''id'', Num 7), (js ''user_id'', Num 42), (js ''description'', Null),
      (js ''date_modified'', Str (js ''2024-05-01''))]"
  by (simp add: example_record_def endsWith_encrypted_def originalKey_def js_def suffix_to_prefix
      passthrough_keys_def)

lemma order_example:
  "filter rejects_at_once (pending example_record)
     @ filter (\<lambda>p. \<not> rejects_at_once p) (pending example_record)
   = [(js ''value'', js ''!!!''), (js ''secret_name'', js ''AAECAwQFBgcICQoLWktZWeHh4eHh4eHh4eHh4eHh4eE='')]"
  unfolding pending_example by (simp add: rejects_bad accepts_pass)

lemma decryptObject_example:
  "decryptObject xor_gcm example_record example_key =
     [(js ''id'', Num 7), (js ''user_id'', Num 42), (js ''description'', Null),
      (js ''date_modified'', Str (js ''2024-05-01'')),
      (js ''value'', Str (js ''[DECRYPTION FAILED]'')),
      (js ''secret_name'', Str (js ''pass''))]"
  unfolding decryptObject_def decryptObject_settling_def order_example immediate_example
  by (simp add: assign_all_def settle_def decryptData_pass decryptData_bad)
     (simp add: property_eval)

lemma example_settling:
  "settling_order example_record
     [(js ''value'', js ''!!!''), (js ''secret_name'', js ''AAECAwQFBgcICQoLWktZWeHh4eHh4eHh4eHh4eHh4eE='')]"
  using fifo_settling[of example_record] unfolding order_example .

lemma decryptObject_example_settling:
  "decryptObject xor_gcm example_record example_key =
     decryptObject_settling xor_gcm example_record example_key
       [(js ''value'', js ''!!!''), (js ''secret_name'', js ''AAECAwQFBgcICQoLWktZWeHh4eHh4eHh4eHh4eHh4eE='')]"
  unfolding decryptObject_def order_example ..

lemma example_names_distinct: "names_distinct example_record"
  unfolding names_distinct_def pending_example immediate_example by (simp add: js_def)

lemma example_keys_distinct: "distinct (map fst example_record)"
  by (simp add: example_record_def js_def)

subsection \<open>\<open>encryptObject\<close>\<close>



















subsection \<open>The claims on \<open>decryptObject\<close> and \<open>encryptObject\<close>\<close>

text \<open>
  C10, as the code has it. For an input with distinct keys, none of them
  \<open>__proto___encrypted\<close>, and whatever the order in which the decryptions settle: the
  keys of the result are the bare names of the \<open>*_encrypted\<close> input keys together with
  those of \<open>id\<close>, \<open>user_id\<close> and \<open>date_modified\<close> that are input keys, and nothing
  else; such a pass-through key has its input value in the result when it is not also
  the bare name of a \<open>*_encrypted\<close> input key; and every entry of the result is a
  pass-through entry of the input, or holds under the bare name of a \<open>*_encrypted\<close>
  input field what \<open>decryptObject\<close> assigns for the value of that field. So the value
  of no other input field is in the result.
\<close>

theorem decryptObject_entries:
  assumes "settling_order obj settled" and "distinct (map fst obj)"
    and "js ''__proto___encrypted'' \<notin> fst ` set obj"
  shows "fst ` set (decryptObject_settling gcm obj key settled)
           = bare_names obj \<union> (set passthrough_keys \<inter> fst ` set obj)
       \<and> (\<forall>k v. (k, v) \<in> set obj \<and> k \<in> set passthrough_keys \<and> k \<notin> bare_names obj
             \<longrightarrow> map_of (decryptObject_settling gcm obj key settled) k = Some v)
       \<and> (\<forall>x y. (x, y) \<in> set (decryptObject_settling gcm obj key settled)
             \<longrightarrow> (x \<in> set passthrough_keys \<and> (x, y) \<in> set obj)
                 \<or> (\<exists>k v. (k, v) \<in> set obj \<and> endsWith_encrypted k \<and> originalKey k = x
                          \<and> y = field_value gcm key v))"
proof (intro conjI allI impI)
  let ?R = "decryptObject_settling gcm obj key settled"
  let ?ws = "immediate_writes obj @ map (settle gcm key) settled"
  have "fst ` set (map (settle gcm key) settled) = fst ` set (pending obj)"
    using settling_order_set[OF assms(1)] by (simp add: image_image fst_settle)
  then have ws: "fst ` set ?ws = bare_names obj \<union> (set passthrough_keys \<inter> fst ` set obj)"
    using write_names[of obj] by (simp add: image_Un)
  have np: "js ''__proto__'' \<notin> fst ` set ?ws"
    using no_proto_key[OF assms(3)] settling_order_set[OF assms(1)]
    by (simp add: image_Un image_image fst_settle)
  have "fst ` set ?R - {js ''__proto__''} = fst ` set ?ws - {js ''__proto__''}"
    unfolding decryptObject_settling_def keys_assign_all by (simp add: empty_object_def)
  moreover have "js ''__proto__'' \<notin> fst ` set ?R"
    unfolding decryptObject_settling_def using np
    by (rule no_proto_write) (simp add: empty_object_def)
  ultimately have "fst ` set ?R = fst ` set ?ws"
    using np by (metis Diff_empty Diff_insert0)
  then show "fst ` set ?R = bare_names obj \<union> (set passthrough_keys \<inter> fst ` set obj)"
    by (simp only: ws)
next
  fix k v
  assume a: "(k, v) \<in> set obj \<and> k \<in> set passthrough_keys \<and> k \<notin> bare_names obj"
  let ?ws = "immediate_writes obj @ map (settle gcm key) settled"
  have in_ws: "(k, v) \<in> set ?ws"
    using a immediate_writes_passthrough[of k v obj] passthrough_not_encrypted[of k] by simp
  have only: "\<forall>v'. (k, v') \<in> set ?ws \<longrightarrow> v' = v"
  proof (intro allI impI)
    fix v'
    assume "(k, v') \<in> set ?ws"
    then consider "(k, v') \<in> set (immediate_writes obj)"
      | p where "p \<in> set settled" and "settle gcm key p = (k, v')"
      by auto
    then show "v' = v"
    proof cases
      case 1
      with a immediate_writes_origin[of k v' obj] have "(k, v') \<in> set obj" by blast
      with a assms(2) show ?thesis by (meson eq_key_imp_eq_value)
    next
      case 2
      then have "fst p = k" using fst_settle[of gcm key p] by simp
      moreover have "p \<in> set (pending obj)" using 2 settling_order_set[OF assms(1)] by simp
      ultimately have "k \<in> bare_names obj" using pending_origin[of k "snd p" obj] by auto
      with a show ?thesis by simp
    qed
  qed
  have np: "k \<noteq> js ''__proto__''"
    using a passthrough_not_proto by blast
  show "map_of (decryptObject_settling gcm obj key settled) k = Some v"
    unfolding decryptObject_settling_def using in_ws only np by (rule assign_all_only_value)
next
  fix x y
  assume "(x, y) \<in> set (decryptObject_settling gcm obj key settled)"
  then have "(x, y) \<in> set (immediate_writes obj @ map (settle gcm key) settled)
             \<or> (x, y) \<in> set (own empty_object)"
    unfolding decryptObject_settling_def by (rule entries_assign_all)
  then have "(x, y) \<in> set (immediate_writes obj) \<or> (x, y) \<in> settle gcm key ` set settled"
    by (simp add: empty_object_def)
  then consider "(x, y) \<in> set (immediate_writes obj)"
    | p where "p \<in> set settled" and "settle gcm key p = (x, y)"
    by (metis imageE)
  then show "(x \<in> set passthrough_keys \<and> (x, y) \<in> set obj)
                 \<or> (\<exists>k v. (k, v) \<in> set obj \<and> endsWith_encrypted k \<and> originalKey k = x
                          \<and> y = field_value gcm key v)"
  proof cases
    case 1
    from immediate_writes_source[OF 1, of gcm key] show ?thesis
    proof
      assume "\<exists>k v. (k, v) \<in> set obj \<and> endsWith_encrypted k \<and> x = originalKey k \<and> y = Null
                \<and> field_value gcm key v = Null"
      then obtain k v where "(k, v) \<in> set obj" "endsWith_encrypted k" "x = originalKey k"
        "y = Null" "field_value gcm key v = Null"
        by blast
      then have "(k, v) \<in> set obj \<and> endsWith_encrypted k \<and> originalKey k = x
                 \<and> y = field_value gcm key v"
        by simp
      then show ?thesis by blast
    next
      assume "(x, y) \<in> set obj \<and> x \<in> set passthrough_keys \<and> \<not> endsWith_encrypted x"
      then show ?thesis by simp
    qed
  next
    case 2
    obtain n s where p: "p = (n, s)" by (cases p)
    have "(n, s) \<in> set (pending obj)"
      using 2(1) settling_order_set[OF assms(1)] unfolding p by simp
    then obtain k where k: "(k, Str s) \<in> set obj" "endsWith_encrypted k" "n = originalKey k" "s \<noteq> []"
      using pending_source by blast
    have "x = n" using 2(2) fst_settle[of gcm key p] unfolding p by simp
    moreover have "y = field_value gcm key (Str s)"
      using 2(2) snd_settle[OF k(4), of gcm key n] unfolding p by simp
    ultimately show ?thesis using k by blast
  qed
qed

theorem decryptObject_entries_witness:
  "settling_order example_record
     [(js ''value'', js ''!!!''), (js ''secret_name'', js ''AAECAwQFBgcICQoLWktZWeHh4eHh4eHh4eHh4eHh4eE='')]
   \<and> distinct (map fst example_record)
   \<and> js ''__proto___encrypted'' \<notin> fst ` set example_record
   \<and> fst ` set (decryptObject xor_gcm example_record example_key)
       = bare_names example_record \<union> (set passthrough_keys \<inter> fst ` set example_record)
   \<and> bare_names example_record = {js ''secret_name'', js ''description'', js ''value''}
   \<and> (js ''id'', Num 7) \<in> set example_record \<and> js ''id'' \<in> set passthrough_keys
   \<and> js ''id'' \<notin> bare_names example_record
   \<and> map_of (decryptObject xor_gcm example_record example_key) (js ''id'') = Some (Num 7)
   \<and> (js ''value'', Str (js ''[DECRYPTION FAILED]''))
       \<in> set (decryptObject xor_gcm example_record example_key)
   \<and> field_value xor_gcm example_key (Str (js ''!!!'')) = Str (js ''[DECRYPTION FAILED]'')"
proof -
  have b: "bare_names example_record = {js ''secret_name'', js ''description'', js ''value''}"
    by (simp add: bare_names_def example_record_def endsWith_encrypted_def originalKey_def js_def
        suffix_to_prefix)
  have i: "(js ''id'', Num 7) \<in> set example_record \<and> js ''id'' \<in> set passthrough_keys
           \<and> js ''id'' \<notin> bare_names example_record"
    unfolding b by (simp add: example_record_def passthrough_keys_def js_def)
  have m: "(js ''value'', Str (js ''[DECRYPTION FAILED]''))
       \<in> set (decryptObject xor_gcm example_record example_key)"
    unfolding decryptObject_example by simp
  have f: "field_value xor_gcm example_key (Str (js ''!!!'')) = Str (js ''[DECRYPTION FAILED]'')"
    by (simp add: field_value_def settle_def decryptData_bad) (simp add: js_def)
  have np: "js ''__proto___encrypted'' \<notin> fst ` set example_record"
    by (simp add: example_record_def js_def)
  from decryptObject_entries[OF example_settling example_keys_distinct np, of xor_gcm example_key] i
  have k: "fst ` set (decryptObject xor_gcm example_record example_key)
       = bare_names example_record \<union> (set passthrough_keys \<inter> fst ` set example_record)"
    and v: "map_of (decryptObject xor_gcm example_record example_key) (js ''id'') = Some (Num 7)"
    unfolding decryptObject_example_settling by blast+
  note i1 = i[THEN conjunct1] and i2 = i[THEN conjunct2, THEN conjunct1]
    and i3 = i[THEN conjunct2, THEN conjunct2]
  from example_settling example_keys_distinct np k b i1 i2 i3 v m f show ?thesis
    by (intro conjI)
qed

text \<open>
  C10 as stated fails where a bare name meets another input key, and for the bare name
  \<open>__proto__\<close>. With the input \<open>{id: 5, id_encrypted: null}\<close> the result is
  \<open>{id: null}\<close>: the value of \<open>id\<close> is not passed through. With
  \<open>{foo: 1, foo_encrypted: null}\<close> the result is \<open>{foo: null}\<close>: the key \<open>foo\<close>, which
  has no suffix and is none of the three, is not absent. The two keys
  \<open>_encrypteda_encrypted\<close> and \<open>a_encrypted_encrypted\<close> give one entry, not two.
  With an input whose only key is \<open>__proto___encrypted\<close> the result has no property:
  the assignment to \<open>__proto__\<close> reaches the setter of \<open>Object.prototype\<close>.
\<close>

theorem decryptObject_overwritten_entries:
  "decryptObject xor_gcm [(js ''id'', Num 5), (js ''id_encrypted'', Null)] example_key
     = [(js ''id'', Null)]
   \<and> decryptObject xor_gcm [(js ''foo'', Num 1), (js ''foo_encrypted'', Null)] example_key
     = [(js ''foo'', Null)]
   \<and> decryptObject xor_gcm
         [(js ''_encrypteda_encrypted'', Null), (js ''a_encrypted_encrypted'', Null)] example_key
     = [(js ''a_encrypted'', Null)]
   \<and> decryptObject xor_gcm [(js ''__proto___encrypted'', Null)] example_key = []"
  by (simp add: object_eval)

text \<open>
  C5, as the code has it. In a wire object in which no two writes go to one name, and
  whatever the order in which the decryptions settle, every \<open>*_encrypted\<close> field with a
  non-empty string, \<open>__proto___encrypted\<close> set aside, has under its bare name the
  plaintext when \<open>decryptData\<close> returns one and \<open>[DECRYPTION FAILED]\<close> when
  \<open>decryptData\<close> throws. \<open>decryptObject\<close> has no error result: the \<open>catch\<close> around
  \<open>decryptData\<close> is the model's \<open>settle\<close>.
\<close>

theorem decryptObject_field:
  assumes "settling_order obj settled" and "names_distinct obj"
    and "(k, Str w) \<in> set obj" and "endsWith_encrypted k" and "w \<noteq> []"
    and "k \<noteq> js ''__proto___encrypted''"
  shows "map_of (decryptObject_settling gcm obj key settled) (originalKey k) =
           Some (case decryptData gcm w key of
                   Inl e \<Rightarrow> Str (js ''[DECRYPTION FAILED]'')
                 | Inr plaintext \<Rightarrow> Str plaintext)"
proof -
  let ?ws = "immediate_writes obj @ map (settle gcm key) settled"
  let ?v = "case decryptData gcm w key of
              Inl e \<Rightarrow> Str (js ''[DECRYPTION FAILED]'') | Inr plaintext \<Rightarrow> Str plaintext"
  have "(originalKey k, w) \<in> set settled"
    using pending_member[OF assms(3,4,5)] settling_order_set[OF assms(1)] by simp
  then have "settle gcm key (originalKey k, w) \<in> set (map (settle gcm key) settled)"
    unfolding set_map by (rule imageI)
  moreover have "settle gcm key (originalKey k, w) = (originalKey k, ?v)"
    by (simp add: settle_def split: sum.splits)
  ultimately have in_ws: "(originalKey k, ?v) \<in> set ?ws" by simp
  have d: "distinct (map fst ?ws)"
    using assms(1,2) by (rule writes_distinct)
  have only: "\<forall>v'. (originalKey k, v') \<in> set ?ws \<longrightarrow> v' = ?v"
    using d in_ws by (meson eq_key_imp_eq_value)
  have np: "originalKey k \<noteq> js ''__proto__''"
    using assms(4,6) originalKey_proto[of k] by blast
  show ?thesis
    unfolding decryptObject_settling_def using in_ws only np by (rule assign_all_only_value)
qed

theorem decryptObject_field_witness:
  "settling_order example_record
     [(js ''value'', js ''!!!''), (js ''secret_name'', js ''AAECAwQFBgcICQoLWktZWeHh4eHh4eHh4eHh4eHh4eE='')]
   \<and> names_distinct example_record
   \<and> (js ''secret_name_encrypted'', Str (js ''AAECAwQFBgcICQoLWktZWeHh4eHh4eHh4eHh4eHh4eE='')) \<in> set example_record
   \<and> endsWith_encrypted (js ''secret_name_encrypted'') \<and> js ''AAECAwQFBgcICQoLWktZWeHh4eHh4eHh4eHh4eHh4eE='' \<noteq> []
   \<and> js ''secret_name_encrypted'' \<noteq> js ''__proto___encrypted''
   \<and> originalKey (js ''secret_name_encrypted'') = js ''secret_name''
   \<and> map_of (decryptObject xor_gcm example_record example_key) (js ''secret_name'')
       = Some (Str (js ''pass''))
   \<and> map_of (decryptObject xor_gcm example_record example_key) (js ''value'')
       = Some (Str (js ''[DECRYPTION FAILED]''))"
proof -
  have m: "(js ''secret_name_encrypted'', Str (js ''AAECAwQFBgcICQoLWktZWeHh4eHh4eHh4eHh4eHh4eE='')) \<in> set example_record"
    by (simp add: example_record_def)
  have e: "endsWith_encrypted (js ''secret_name_encrypted'')"
    by (simp add: endsWith_encrypted_def js_def suffix_to_prefix)
  have n: "js ''AAECAwQFBgcICQoLWktZWeHh4eHh4eHh4eHh4eHh4eE='' \<noteq> []"
    by (simp add: js_def)
  have o: "originalKey (js ''secret_name_encrypted'') = js ''secret_name''"
    by (simp add: originalKey_def js_def)
  have p: "js ''secret_name_encrypted'' \<noteq> js ''__proto___encrypted''"
    by (simp add: js_def)
  have v: "map_of (decryptObject xor_gcm example_record example_key) (js ''value'')
       = Some (Str (js ''[DECRYPTION FAILED]''))"
    unfolding decryptObject_example by (simp add: js_def)
  from decryptObject_field[OF example_settling example_names_distinct m e n p, of xor_gcm example_key]
  have "map_of (decryptObject xor_gcm example_record example_key) (js ''secret_name'')
       = Some (Str (js ''pass''))"
    by (simp only: decryptObject_example_settling[symmetric] o decryptData_pass sum.case)
  with example_settling example_names_distinct m e n p o v show ?thesis by (intro conjI)
qed

text \<open>
  C5 as stated, for every wire record, fails where two \<open>*_encrypted\<close> keys have one bare
  name: \<open>replace\<close> removes the first \<open>_encrypted\<close>, so \<open>_encrypteda_encrypted\<close> and
  \<open>a_encrypted_encrypted\<close> are both written to \<open>a_encrypted\<close>. The first field is
  corrupted (one bit of its wire string is flipped, and the cipher rejects it), the
  second is valid, and the result has a single entry: the plaintext when the valid field
  settles last, the failure marker when the corrupted one does. It fails also for the
  bare name \<open>__proto__\<close>: a valid field \<open>__proto___encrypted\<close> is decrypted and its
  plaintext is not in the result.
\<close>

theorem decryptObject_colliding_fields:
  "pending colliding_record
     = [(js ''a_encrypted'', js ''AAECAwQFBgcICQoLWktZVeHh4eHh4eHh4eHh4eHh4eE=''),
        (js ''a_encrypted'', js ''AAECAwQFBgcICQoLWktZWeHh4eHh4eHh4eHh4eHh4eE='')]
   \<and> settling_order colliding_record
         [(js ''a_encrypted'', js ''AAECAwQFBgcICQoLWktZVeHh4eHh4eHh4eHh4eHh4eE=''),
          (js ''a_encrypted'', js ''AAECAwQFBgcICQoLWktZWeHh4eHh4eHh4eHh4eHh4eE='')]
   \<and> decryptObject_settling xor_gcm colliding_record example_key
         [(js ''a_encrypted'', js ''AAECAwQFBgcICQoLWktZVeHh4eHh4eHh4eHh4eHh4eE=''),
          (js ''a_encrypted'', js ''AAECAwQFBgcICQoLWktZWeHh4eHh4eHh4eHh4eHh4eE='')]
       = [(js ''a_encrypted'', Str (js ''pass''))]
   \<and> settling_order colliding_record
         [(js ''a_encrypted'', js ''AAECAwQFBgcICQoLWktZWeHh4eHh4eHh4eHh4eHh4eE=''),
          (js ''a_encrypted'', js ''AAECAwQFBgcICQoLWktZVeHh4eHh4eHh4eHh4eHh4eE='')]
   \<and> decryptObject_settling xor_gcm colliding_record example_key
         [(js ''a_encrypted'', js ''AAECAwQFBgcICQoLWktZWeHh4eHh4eHh4eHh4eHh4eE=''),
          (js ''a_encrypted'', js ''AAECAwQFBgcICQoLWktZVeHh4eHh4eHh4eHh4eHh4eE='')]
       = [(js ''a_encrypted'', Str (js ''[DECRYPTION FAILED]''))]
   \<and> decryptObject xor_gcm
         [(js ''__proto___encrypted'', Str (js ''AAECAwQFBgcICQoLWktZWeHh4eHh4eHh4eHh4eHh4eE=''))]
         example_key
       = []"
proof -
  let ?bad = "(js ''a_encrypted'', js ''AAECAwQFBgcICQoLWktZVeHh4eHh4eHh4eHh4eHh4eE='')"
  let ?good = "(js ''a_encrypted'', js ''AAECAwQFBgcICQoLWktZWeHh4eHh4eHh4eHh4eHh4eE='')"
  have p: "pending colliding_record = [?bad, ?good]"
    by (simp add: colliding_record_def endsWith_encrypted_def originalKey_def js_def suffix_to_prefix)
  have i: "immediate_writes colliding_record = []"
    by (simp add: colliding_record_def endsWith_encrypted_def originalKey_def js_def suffix_to_prefix)
  have s1: "settling_order colliding_record [?bad, ?good]"
    unfolding settling_order_def p by (simp add: accepts_pass accepts_flipped)
  have s2: "settling_order colliding_record [?good, ?bad]"
    unfolding settling_order_def p by (simp add: accepts_pass accepts_flipped)
  have a: "decryptObject_settling xor_gcm colliding_record example_key [?bad, ?good]
       = [(js ''a_encrypted'', Str (js ''pass''))]"
    unfolding decryptObject_settling_def i
    by (simp add: assign_all_def settle_def decryptData_pass decryptData_flipped)
       (simp add: property_eval)
  have b: "decryptObject_settling xor_gcm colliding_record example_key [?good, ?bad]
       = [(js ''a_encrypted'', Str (js ''[DECRYPTION FAILED]''))]"
    unfolding decryptObject_settling_def i
    by (simp add: assign_all_def settle_def decryptData_pass decryptData_flipped)
       (simp add: property_eval)
  have pp: "pending [(js ''__proto___encrypted'', Str (js ''AAECAwQFBgcICQoLWktZWeHh4eHh4eHh4eHh4eHh4eE=''))]
      = [(js ''__proto__'', js ''AAECAwQFBgcICQoLWktZWeHh4eHh4eHh4eHh4eHh4eE='')]"
    by (simp add: endsWith_encrypted_def originalKey_def js_def suffix_to_prefix)
  have ip: "immediate_writes [(js ''__proto___encrypted'', Str (js ''AAECAwQFBgcICQoLWktZWeHh4eHh4eHh4eHh4eHh4eE=''))]
      = []"
    by (simp add: endsWith_encrypted_def originalKey_def js_def suffix_to_prefix)
  have c: "decryptObject xor_gcm
         [(js ''__proto___encrypted'', Str (js ''AAECAwQFBgcICQoLWktZWeHh4eHh4eHh4eHh4eHh4eE=''))]
         example_key
       = []"
    unfolding decryptObject_def decryptObject_settling_def pp ip
    by (simp add: accepts_pass assign_all_def settle_def decryptData_pass)
       (simp add: property_eval)
  from p s1 a s2 b c show ?thesis by (intro conjI)
qed




section \<open>Password hashing: \<open>hashPassword\<close> and \<open>verifyPassword\<close>\<close>

lemma b64_char_not_dollar: "n < 64 \<Longrightarrow> b64_char n \<noteq> 36"
proof
  assume "n < 64" and "b64_char n = 36"
  then have "unat (b64_char n) = 36" by simp
  with \<open>n < 64\<close> show False by (simp add: unat_b64_char split: if_splits)
qed

lemma b64_encode_no_dollar:
  "list_all (\<lambda>x. x < 256) xs \<Longrightarrow> list_all (\<lambda>u. u \<noteq> 36) (b64_encode xs)"
  by (induction xs rule: b64_encode.induct)
     (simp_all add: b64_char_not_dollar sextet_lt_1 sextet_lt_2 sextet_lt_3 sextet_lt_4 sextet_lt_5)

lemma b64_encode_nonempty: "xs \<noteq> [] \<Longrightarrow> b64_encode xs \<noteq> []"
  by (cases xs rule: b64_encode.cases) simp_all

lemma js_dollar: "js ''$'' = [36]"
  by (simp add: js_def)

lemma strip_prefix_append: "strip_prefix p (p @ r) = Some r"
  by (simp add: strip_prefix_def)

lemma is_digit_dollar: "\<not> is_digit 36"
  by (simp add: is_digit_def)

lemma pbkdf2_match_parts:
  assumes "ds \<noteq> []" and "list_all is_digit ds"
    and "salt \<noteq> []" and "list_all (\<lambda>u. u \<noteq> 36) salt"
    and "hash \<noteq> []" and "list_all (\<lambda>u. u \<noteq> 36) hash"
  shows "pbkdf2_match (js ''$pbkdf2$'' @ ds @ js ''$'' @ salt @ js ''$'' @ hash) = Some (ds, salt, hash)"
proof -
  have d1: "takeWhile is_digit (ds @ 36 # salt @ 36 # hash) = ds"
    using assms(2) by (simp add: list_all_iff is_digit_dollar)
  have d2: "dropWhile is_digit (ds @ 36 # salt @ 36 # hash) = 36 # salt @ 36 # hash"
    using assms(2) by (simp add: list_all_iff is_digit_dollar)
  have s1: "takeWhile (\<lambda>u. u \<noteq> 36) (salt @ 36 # hash) = salt"
    using assms(4) by (simp add: list_all_iff)
  have s2: "dropWhile (\<lambda>u. u \<noteq> 36) (salt @ 36 # hash) = 36 # hash"
    using assms(4) by (simp add: list_all_iff)
  have h: "\<not> list_ex (\<lambda>u. u = 36) hash"
    using assms(6) by (simp add: list_all_iff list_ex_iff)
  have p1: "strip_prefix [36] (36 # salt @ 36 # hash) = Some (salt @ 36 # hash)"
    using strip_prefix_append[of "[36]"] by simp
  have p2: "strip_prefix [36] (36 # hash) = Some hash"
    using strip_prefix_append[of "[36]"] by simp
  show ?thesis
    unfolding pbkdf2_match_def
    by (simp only: strip_prefix_append js_dollar append.simps option.case Let_def d1 d2 s1 s2 p1 p2
        assms(1,3,5) h if_False simp_thms)
qed

lemma decimal_digits: "list_all is_digit (decimal n) \<and> decimal n \<noteq> []"
proof (induction n rule: decimal.induct)
  case (1 n)
  have u: "\<And>k. k < 10 \<Longrightarrow> is_digit (of_nat (48 + k))"
    by (simp add: is_digit_def unat_of_nat16 del: of_nat_add)
  show ?case
  proof (cases "n < 10")
    case True
    then show ?thesis using u[of n] by (subst decimal.simps, subst decimal.simps) simp
  next
    case False
    then show ?thesis using 1 u[of "n mod 10"]
      by (subst decimal.simps, subst (2) decimal.simps) simp
  qed
qed

lemma Number_of_decimal: "Number_of (decimal n) = Some n"
proof -
  have u: "\<And>k. k < 10 \<Longrightarrow> unat (of_nat (48 + k) :: jschar) - 48 = k"
    by (simp add: unat_of_nat16 del: of_nat_add)
  have "foldl (\<lambda>n u. 10 * n + (unat u - 48)) 0 (decimal n) = n"
  proof (induction n rule: decimal.induct)
    case (1 n)
    show ?case
    proof (cases "n < 10")
      case True
      then show ?thesis using u[of n] by (subst decimal.simps) simp
    next
      case False
      then show ?thesis using 1 u[of "n mod 10"] by (subst decimal.simps) simp
    qed
  qed
  then show ?thesis using decimal_digits[of n] by (simp add: Number_of_def)
qed

lemma timingSafeEqual_fold:
  "foldl (\<lambda>mismatch (x, y). mismatch OR (ucast x XOR ucast y)) (m :: 32 word) (zip a a) = m"
  by (induction a arbitrary: m) simp_all

lemma timingSafeEqual_same: "timingSafeEqual a a"
  by (simp add: timingSafeEqual_def timingSafeEqual_fold)


lemma xor_zero_iff: "(x XOR y = 0) = (x = y)" for x y :: "32 word"
proof
  assume a: "x XOR y = 0"
  have "x = (x XOR y) XOR y" by (simp add: xor.assoc)
  also have "\<dots> = y" by (simp only: a) simp
  finally show "x = y" .
qed simp

lemma ucast_8_32_inj: "((ucast (x :: byte) :: 32 word) = ucast y) = (x = y)"
proof
  assume "(ucast x :: 32 word) = ucast y"
  then have "(ucast (ucast x :: 32 word) :: byte) = ucast (ucast y :: 32 word)" by simp
  then show "x = y" by (simp add: ucast_up_ucast_id is_up)
qed simp

lemma timingSafeEqual_fold_iff:
  "length (a :: bytes) = length (b :: bytes) \<Longrightarrow>
   (foldl (\<lambda>mismatch (x, y). mismatch OR (ucast x XOR ucast y)) (m :: 32 word) (zip a b) = 0)
     = (m = 0 \<and> a = b)"
proof (induction a b arbitrary: m rule: list_induct2)
  case Nil
  show ?case by simp
next
  case (Cons x xs y ys)
  show ?case
    by (auto simp: Cons.IH or_eq_0_iff xor_zero_iff dest: ucast_8_32_inj[THEN iffD1])
qed

lemma timingSafeEqual_iff: "timingSafeEqual a b = (a = b)"
  by (auto simp: timingSafeEqual_def timingSafeEqual_fold_iff)

lemma getRandomValues_length: "length (fst (getRandomValues n r)) = n"
  by (simp add: getRandomValues_def)

lemma verifyPassword_no_match:
  "pbkdf2_match storedHash = None \<Longrightarrow> verifyPassword kdf password storedHash = Inr False"
  by (simp add: verifyPassword_def)

text \<open>
  C9. \<open>hashPassword\<close> returns a hash string, and \<open>verifyPassword\<close> of the same password
  and that string is true. \<open>verifyPassword\<close> reads nothing but its two arguments, so the
  answer is the same wherever the unchanged string has been kept in between. The
  hypothesis is the length of what \<open>deriveBits(..., 256)\<close> returns.
\<close>

theorem verifyPassword_hashPassword:
  assumes "\<forall>p s n. length (kdf p s n) = 32"
  shows "\<exists>h. fst (hashPassword kdf password r) = Inr h \<and> verifyPassword kdf password h = Inr True"
proof -
  define salt where "salt = fst (getRandomValues SALT_BYTES r)"
  define hashBytes where "hashBytes = kdf (TextEncoder_encode password) salt PBKDF2_ITERATIONS_DEFAULT"
  define saltB64 where "saltB64 = b64_encode (map unat salt)"
  define hashB64 where "hashB64 = b64_encode (map unat hashBytes)"
  define h where "h = js ''$pbkdf2$'' @ decimal PBKDF2_ITERATIONS_DEFAULT @ js ''$'' @ saltB64 @ js ''$'' @ hashB64"
  have salt_ne: "salt \<noteq> []"
    using getRandomValues_length[of SALT_BYTES r] by (auto simp: salt_def SALT_BYTES_def)
  have hash_ne: "hashBytes \<noteq> []"
    using assms by (auto simp: hashBytes_def dest: arg_cong[where f = length])
  have derive: "deriveBits kdf (TextEncoder_encode password) salt PBKDF2_ITERATIONS_DEFAULT = Inr hashBytes"
    by (simp add: deriveBits_def hashBytes_def PBKDF2_ITERATIONS_DEFAULT_def)
  have hp: "fst (hashPassword kdf password r) = Inr h"
    using derive
    by (simp add: hashPassword_def Let_def split_def salt_def[symmetric] fromBase64_toBase64
        h_def saltB64_def hashB64_def)
  have m: "pbkdf2_match h = Some (decimal PBKDF2_ITERATIONS_DEFAULT, saltB64, hashB64)"
    unfolding h_def
    by (rule pbkdf2_match_parts)
       (simp_all add: decimal_digits saltB64_def hashB64_def b64_encode_nonempty salt_ne hash_ne
         b64_encode_no_dollar all_bytes_small)
  have pre: "prefix (js ''$pbkdf2$'') h"
    by (simp add: h_def)
  have "verifyPassword kdf password h = Inr True"
    unfolding verifyPassword_def
    by (simp add: pre m Number_of_decimal saltB64_def hashB64_def fromBase64_toBase64 derive
        timingSafeEqual_same)
  with hp show ?thesis by blast
qed

lemma xor_kdf_length: "\<forall>p s n. length (xor_kdf p s n) = 32"
  by (simp add: xor_kdf_def)

theorem verifyPassword_hashPassword_witness:
  "(\<forall>p s n. length (xor_kdf p s n) = 32) \<and>
   (\<exists>h. fst (hashPassword xor_kdf (js ''CorrectHorse!23'') (\<lambda>i. of_nat i)) = Inr h
        \<and> verifyPassword xor_kdf (js ''CorrectHorse!23'') h = Inr True)"
  using verifyPassword_hashPassword[OF xor_kdf_length, of "js ''CorrectHorse!23''" "\<lambda>i. of_nat i"]
    xor_kdf_length by blast

text \<open>
  C7. The stored hash \<open>$pbkdf2$100$!$!\<close> has the prefix and matches the regular
  expression, whose second and third group accept any character but \<open>$\<close>. Then
  \<open>fromBase64\<close> calls \<open>atob\<close> on \<open>!\<close>, which throws, and nothing in
  \<open>verifyPassword\<close> catches it.
\<close>

theorem verifyPassword_invalid_base64_throws:
  "verifyPassword kdf password (js ''$pbkdf2$100$!$!'') = Inl InvalidCharacterError"
  by (simp add: verifyPassword_def pbkdf2_match_def strip_prefix_def js_def is_digit_def Let_def
      Number_of_def fromBase64_def atob_def is_ascii_whitespace_def strip_padding_def b64_val_def)

section \<open>Password reset: \<open>resetPassword\<close>\<close>

lemma hashPassword_ok: "\<exists>h. fst (hashPassword kdf password r) = Inr h"
  by (simp add: hashPassword_def Let_def split_def deriveBits_def PBKDF2_ITERATIONS_DEFAULT_def
      fromBase64_toBase64)

lemma resetPassword_select_valid:
  assumes "length (token body) \<ge> 10" and "length (newPassword body) \<ge> 12"
    and "find (\<lambda>row. token_hash row = hashToken sha (token body)) (password_reset_tokens d) = Some row"
    and "used row = 0" and "expires_at row = Some e" and "\<not> e < now"
  shows "\<exists>ph. fst (resetPassword_select sha kdf body now r d)
               = Commit ph (token_user_id row) (hashToken sha (token body))"
proof -
  obtain h where "fst (hashPassword kdf (newPassword body) r) = Inr h"
    using hashPassword_ok by blast
  then show ?thesis
    using assms
    by (cases "hashPassword kdf (newPassword body) r")
       (simp add: resetPassword_select_def Let_def)
qed

lemma find_marked_used:
  "find (\<lambda>row. token_hash row = h) rows = Some row \<Longrightarrow>
   find (\<lambda>row. token_hash row = h)
     (map (\<lambda>row. if token_hash row = h then row\<lparr>used := 1\<rparr> else row) rows)
     = Some (row\<lparr>used := 1\<rparr>)"
  by (induction rows) (auto split: if_splits)

lemma resetPassword_sequential:
  assumes "length (token body) \<ge> 10" and "length (newPassword body) \<ge> 12"
    and "length (newPassword body') \<ge> 12" and "token body' = token body"
    and "find (\<lambda>row. token_hash row = hashToken sha (token body)) (password_reset_tokens d) = Some row"
    and "used row = 0" and "expires_at row = Some e" and "\<not> e < now"
  shows "fst (resetPassword sha kdf body now r d) = Json_success ''Password reset successfully.''
       \<and> fst (resetPassword sha kdf body' now' r' (fst (snd (resetPassword sha kdf body now r d))))
           = Json_error ''Token already used'' 400"
proof -
  obtain ph where c: "fst (resetPassword_select sha kdf body now r d)
               = Commit ph (token_user_id row) (hashToken sha (token body))"
    using resetPassword_select_valid[OF assms(1,2,5,6,7,8)] by blast
  have first: "fst (resetPassword sha kdf body now r d) = Json_success ''Password reset successfully.''"
    using c by (simp add: resetPassword_def split_def resetPassword_write_def)
  have d1: "password_reset_tokens (fst (snd (resetPassword sha kdf body now r d)))
        = map (\<lambda>row. if token_hash row = hashToken sha (token body) then row\<lparr>used := 1\<rparr> else row)
            (password_reset_tokens d)"
    using c by (simp add: resetPassword_def split_def resetPassword_write_def)
  have "fst (resetPassword_select sha kdf body' now' r' (fst (snd (resetPassword sha kdf body now r d))))
          = Respond (Json_error ''Token already used'' 400)"
    using assms(1,3,4) find_marked_used[OF assms(5)]
    by (simp add: resetPassword_select_def Let_def d1)
  then have "fst (resetPassword sha kdf body' now' r' (fst (snd (resetPassword sha kdf body now r d))))
           = Json_error ''Token already used'' 400"
    by (simp add: resetPassword_def split_def resetPassword_write_def)
  with first show ?thesis by simp
qed

lemma resetPassword_write_commit:
  "list_all (\<lambda>s. session_user_id s \<noteq> uid)
     (sessions (snd (resetPassword_write (Commit ph uid h) d)))
   \<and> list_all (\<lambda>u. user_id u = uid \<longrightarrow> password_hash u = ph)
     (users (snd (resetPassword_write (Commit ph uid h) d)))
   \<and> list_all (\<lambda>row. token_hash row = h \<longrightarrow> used row = 1)
     (password_reset_tokens (snd (resetPassword_write (Commit ph uid h) d)))"
proof -
  have 1: "list_all (\<lambda>s. session_user_id s \<noteq> uid) (filter (\<lambda>s. session_user_id s \<noteq> uid) ss)" for ss
    by (induction ss) simp_all
  have 2: "list_all (\<lambda>u. user_id u = uid \<longrightarrow> password_hash u = ph)
             (map (\<lambda>u. if user_id u = uid then u\<lparr>password_hash := ph\<rparr> else u) us)" for us
    by (induction us) simp_all
  have 3: "list_all (\<lambda>row. token_hash row = h \<longrightarrow> used row = 1)
             (map (\<lambda>row. if token_hash row = h then row\<lparr>used := 1\<rparr> else row) rows)" for rows
    by (induction rows) simp_all
  show ?thesis
    by (simp add: resetPassword_write_def 1 2 3)
qed

text \<open>
  C8. Two requests redeem one valid token, and both \<open>SELECT\<close>s run before either batch.
  Each handler has read \<open>used = 0\<close>, so each goes on to its batch, and both respond with
  success; the password is the one of the batch that ran last. The check of the \<open>used\<close>
  flag is not part of the batch. When one request has finished before the other starts,
  the second is rejected (\<open>resetPassword_sequential\<close>).
\<close>

theorem resetPassword_concurrent_both_succeed:
  "(let tok = js ''0123456789abcdef'';
        bodyA = \<lparr>token = tok, newPassword = js ''first-password''\<rparr>;
        bodyB = \<lparr>token = tok, newPassword = js ''second-password''\<rparr>;
        result = resetPassword_interleaved sha kdf bodyA bodyB 1000 r (example_db (hashToken sha tok))
    in fst result = Json_success ''Password reset successfully.''
     \<and> fst (snd result) = Json_success ''Password reset successfully.'')"
proof -
  define tok where "tok = js ''0123456789abcdef''"
  define bodyA where "bodyA = \<lparr>token = tok, newPassword = js ''first-password''\<rparr>"
  define bodyB where "bodyB = \<lparr>token = tok, newPassword = js ''second-password''\<rparr>"
  define d where "d = example_db (hashToken sha tok)"
  define row where "row = \<lparr>token_hash = hashToken sha tok, token_user_id = 7,
                             expires_at = Some 5000, used = 0\<rparr>"
  have f: "find (\<lambda>row. token_hash row = hashToken sha tok) (password_reset_tokens d) = Some row"
    by (simp add: d_def example_db_def row_def)
  have lA: "length (token bodyA) \<ge> 10" "length (newPassword bodyA) \<ge> 12"
    and lB: "length (token bodyB) \<ge> 10" "length (newPassword bodyB) \<ge> 12"
    by (simp_all add: bodyA_def bodyB_def tok_def js_def)
  have tA: "token bodyA = tok" and tB: "token bodyB = tok"
    by (simp_all add: bodyA_def bodyB_def)
  obtain phA where a: "fst (resetPassword_select sha kdf bodyA 1000 r d) = Commit phA 7 (hashToken sha tok)"
    using resetPassword_select_valid[of bodyA sha d row 5000 1000 kdf r] lA f
    by (auto simp: tA row_def)
  obtain phB where b: "fst (resetPassword_select sha kdf bodyB 1000
                              (snd (resetPassword_select sha kdf bodyA 1000 r d)) d)
                         = Commit phB 7 (hashToken sha tok)"
    using resetPassword_select_valid[of bodyB sha d row 5000 1000 kdf
        "snd (resetPassword_select sha kdf bodyA 1000 r d)"] lB f
    by (auto simp: tB row_def)
  have "fst (resetPassword_interleaved sha kdf bodyA bodyB 1000 r d)
            = Json_success ''Password reset successfully.''
        \<and> fst (snd (resetPassword_interleaved sha kdf bodyA bodyB 1000 r d))
            = Json_success ''Password reset successfully.''"
    using a b by (simp add: resetPassword_interleaved_def split_def Let_def resetPassword_write_def)
  then show ?thesis
    by (simp add: Let_def tok_def bodyA_def bodyB_def d_def)
qed

section \<open>Properties of the vault store\<close>

lemma checkUnlockStatus_before_expiry:
  "fst (checkUnlockStatus now now'
     \<lparr>vault = \<lparr>masterKey = Some k, userSalt = s, isUnlocked = True, unlockExpiry = Some e\<rparr>,
      sessionStorage = st\<rparr>) = (e \<noteq> 0 \<and> now < e)"
  by (simp add: checkUnlockStatus_def Let_def split: prod.splits option.splits)

lemma checkUnlockStatus_keeps_key:
  "masterKey (vault w) \<noteq> None \<longrightarrow> masterKey (vault (snd (checkUnlockStatus now now' w))) \<noteq> None"
  by (simp add: checkUnlockStatus_def Let_def split: prod.splits option.splits)

lemma checkUnlockStatus_keeps_unlocked:
  "isUnlocked (vault w) \<longrightarrow> isUnlocked (vault (snd (checkUnlockStatus now now' w)))"
  by (simp add: checkUnlockStatus_def Let_def split: prod.splits option.splits)

text \<open>
  C2. Unlock at \<open>T = 1000\<close> with the default window of 15 minutes; call
  \<open>checkUnlockStatus\<close> one millisecond after \<open>T + W\<close>. It returns false, but the store
  still holds the key and \<open>isUnlocked\<close> is still true: nothing in \<open>checkUnlockStatus\<close>
  writes \<open>masterKey: null\<close> or \<open>isUnlocked: false\<close>.
\<close>

theorem checkUnlockStatus_after_expiry_keeps_key:
  "(let k = \<lparr>key_raw = replicate 32 0, extractable = False\<rparr>;
        w = setMasterKey k None 1000 1000 \<lparr>vault = initial_vault, sessionStorage = None\<rparr>;
        r = checkUnlockStatus 901001 901001 w
    in fst r = False \<and> masterKey (vault (snd r)) = Some k \<and> isUnlocked (vault (snd r)) = True)"
  by (simp add: Let_def setMasterKey_def checkUnlockStatus_def storeVaultSession_def
      exportKey_def retrieveVaultSession_def initial_vault_def DEFAULT_UNLOCK_DURATION_def)

lemma restore_extractable_key:
  assumes "extractable k" and "length (key_raw k) = 32" and "\<not> t' > now' + d"
  shows "checkUnlockStatus t t' (reload (setMasterKey k (Some d) now now' w)) =
           (False, \<lparr>vault = initial_vault\<lparr>masterKey := Some \<lparr>key_raw = key_raw k, extractable = False\<rparr>,
                                           isUnlocked := True\<rparr>,
                    sessionStorage = Some \<lparr>session_key = key_raw k, session_expiry = now' + d\<rparr>\<rparr>)"
  using assms
  by (simp add: Let_def setMasterKey_def checkUnlockStatus_def storeVaultSession_def reload_def
      exportKey_def retrieveVaultSession_def initial_vault_def importKey_aes_def)

text \<open>
  C3. The key that \<open>deriveKey\<close> returns is not extractable, so the export inside
  \<open>storeVaultSession\<close> rejects and \<open>setMasterKey\<close> leaves \<open>sessionStorage\<close> as it was.
  After a reload \<open>checkUnlockStatus\<close> finds nothing to restore: it returns false and the
  store stays locked, however early it is called.
\<close>

theorem setMasterKey_derived_key_not_persisted:
  "sessionStorage (setMasterKey (deriveKey kdf password salt) d now now' w) = sessionStorage w
   \<and> checkUnlockStatus t t'
        (reload (setMasterKey (deriveKey kdf password salt) d now now'
                   \<lparr>vault = initial_vault, sessionStorage = None\<rparr>))
      = (False, \<lparr>vault = initial_vault, sessionStorage = None\<rparr>)"
  by (simp add: Let_def setMasterKey_def checkUnlockStatus_def storeVaultSession_def reload_def
      exportKey_def retrieveVaultSession_def initial_vault_def deriveKey_def)

end
